theory Spec2Isabelle
  imports Main
begin

section \<open>Python strings and the builtins the three programs call\<close>

text \<open>
  A Python \<open>str\<close> is a \<open>char list\<close>, one \<open>char\<close> per code point; the development
  covers the strings whose code points are below 256. On that range \<open>str.isspace\<close> holds
  for the code points 9 to 13, 28 to 32, 133 and 160, and the only decimal digits are
  \<open>0\<close> to \<open>9\<close>. Decoding the received bytes (\<open>recv(1024).decode('utf-8')\<close>) happens
  before every function modelled here: each handler takes the decoded text.
\<close>

definition is_space :: "char \<Rightarrow> bool" where
  "is_space c = (of_char c \<in> {9, 10, 11, 12, 13, 28, 29, 30, 31, 32, 133, 160 :: nat})"

definition py_lstrip :: "string \<Rightarrow> string" where
  "py_lstrip s = dropWhile is_space s"

definition py_rstrip :: "string \<Rightarrow> string" where
  "py_rstrip s = rev (dropWhile is_space (rev s))"

text \<open>\<open>s.strip()\<close>: whitespace removed at both ends.\<close>

definition py_strip :: "string \<Rightarrow> string" where
  "py_strip s = py_rstrip (py_lstrip s)"

text \<open>The text before and after the first occurrence of the separator, if there is one.\<close>

fun split_at :: "char \<Rightarrow> string \<Rightarrow> (string \<times> string) option" where
  "split_at sep [] = None"
| "split_at sep (c # cs) =
     (if c = sep then Some ([], cs)
      else (case split_at sep cs of None \<Rightarrow> None | Some (a, b) \<Rightarrow> Some (c # a, b)))"

text \<open>\<open>s.split(sep, maxsplit)\<close> for a one-character separator: at most \<open>maxsplit\<close> cuts,
  the last part is whatever is left.\<close>

fun py_split_n :: "char \<Rightarrow> nat \<Rightarrow> string \<Rightarrow> string list" where
  "py_split_n sep 0 s = [s]"
| "py_split_n sep (Suc n) s =
     (case split_at sep s of None \<Rightarrow> [s] | Some (a, b) \<Rightarrow> a # py_split_n sep n b)"

text \<open>\<open>s.split(sep)\<close>: no limit on the cuts. A string of \<open>length s\<close> characters holds at
  most \<open>length s\<close> separators, so that bound is never what stops the cutting
  (\<open>py_split_unbounded\<close> below).\<close>

definition py_split :: "char \<Rightarrow> string \<Rightarrow> string list" where
  "py_split sep s = py_split_n sep (length s) s"

text \<open>The exceptions that the modelled code can meet. A \<open>ValueError\<close> of the conversions
  between text and integers is either the refusal of a text by \<open>int\<close> or the refusal of
  a conversion that exceeds the interpreter's limit on the number of digits.\<close>

datatype value_error = InvalidLiteral string | DigitLimit nat

datatype exn = ValueError value_error | AttributeError | OSError | QueueEmpty

definition digit_of :: "char \<Rightarrow> nat option" where
  "digit_of c =
     (let n = (of_char c :: nat) in if 48 \<le> n \<and> n \<le> 57 then Some (n - 48) else None)"

text \<open>The digits of \<open>int(s)\<close> in base 10: at least one digit, and single underscores
  between digits only. The flag says whether the previous character was a digit.\<close>

fun int_digits :: "bool \<Rightarrow> nat \<Rightarrow> string \<Rightarrow> nat option" where
  "int_digits prev acc [] = (if prev then Some acc else None)"
| "int_digits prev acc (c # cs) =
     (if c = CHR ''_'' then (if prev then int_digits False acc cs else None)
      else (case digit_of c of
              None \<Rightarrow> None
            | Some d \<Rightarrow> int_digits True (10 * acc + d) cs))"

text \<open>
  The interpreter's limit on conversions between decimal text and integers
  (\<open>sys.get_int_max_str_digits()\<close>) is the parameter \<open>lim\<close> of both conversions: 0 where
  there is no limit (older interpreters, or the limit switched off), 4300 by default
  where there is one; the interpreter accepts no other setting below 640. A conversion
  is refused when the text is longer than 640 characters and has more than \<open>lim\<close> digits.
\<close>

definition over_limit :: "nat \<Rightarrow> nat \<Rightarrow> nat \<Rightarrow> bool" where
  "over_limit lim len digits = (0 < lim \<and> 640 < len \<and> lim < digits)"

text \<open>The digits of a literal, after its sign: the syntax is checked first, then the
  number of digits against the limit.\<close>

definition int_of_body :: "nat \<Rightarrow> string \<Rightarrow> bool \<Rightarrow> string \<Rightarrow> exn + int" where
  "int_of_body lim s negative body =
     (case int_digits False 0 body of
        None \<Rightarrow> Inl (ValueError (InvalidLiteral s))
      | Some n \<Rightarrow>
          (let digits = length (filter (\<lambda>c. c \<noteq> CHR ''_'') body)
           in if over_limit lim digits digits then Inl (ValueError (DigitLimit lim))
              else Inr (if negative then - int n else int n)))"

text \<open>\<open>int(s)\<close> for a \<open>str\<close>: surrounding whitespace is ignored, then an optional sign,
  then the digits. Anything else raises \<open>ValueError\<close>.\<close>

definition py_int :: "nat \<Rightarrow> string \<Rightarrow> exn + int" where
  "py_int lim s =
     (case py_strip s of
        [] \<Rightarrow> Inl (ValueError (InvalidLiteral s))
      | c # cs \<Rightarrow>
          if c = CHR ''-'' then int_of_body lim s True cs
          else if c = CHR ''+'' then int_of_body lim s False cs
          else int_of_body lim s False (c # cs))"

text \<open>The decimal digits of a natural number, and of an integer with a minus sign when
  it is negative.\<close>

fun str_nat :: "nat \<Rightarrow> string" where
  "str_nat n =
     (if n < 10 then [char_of (48 + n)] else str_nat (n div 10) @ [char_of (48 + n mod 10)])"

declare str_nat.simps [simp del]

definition decimal :: "int \<Rightarrow> string" where
  "decimal i = (if i < 0 then CHR ''-'' # str_nat (nat (- i)) else str_nat (nat i))"

text \<open>\<open>str(n)\<close> for an \<open>int\<close>: its decimal text, unless that exceeds the limit.\<close>

definition py_str :: "nat \<Rightarrow> int \<Rightarrow> exn + string" where
  "py_str lim i =
     (if over_limit lim (length (decimal i)) (length (str_nat (nat \<bar>i\<bar>)))
      then Inl (ValueError (DigitLimit lim))
      else Inr (decimal i))"

section \<open>The wire format\<close>

text \<open>
  Client, worker and balancer read a three-field message the same way
  (\<open>load_balancer.py\<close> lines 205-210 and 278-282, \<open>worker.py\<close> lines 151-156,
  \<open>client.py\<close> lines 100-103):
  \<^verbatim>\<open>parts = data.strip().split('|', 2)\<close>,
  \<^verbatim>\<open>if len(parts) != 3 or parts[0] != TAG: ...\<close>,
  \<^verbatim>\<open>_, task_id, task_data = parts\<close>.
  \<open>decode3\<close> is that test: \<open>None\<close> is the rejected message.
\<close>

definition decode3 :: "string \<Rightarrow> string \<Rightarrow> (string \<times> string) option" where
  "decode3 tag data =
     (case py_split_n CHR ''|'' 2 (py_strip data) of
        [t, a, b] \<Rightarrow> if t = tag then Some (a, b) else None
      | _ \<Rightarrow> None)"

section \<open>The worker (\<open>worker.py\<close>)\<close>

text \<open>The list comprehension \<open>[int(x.strip()) for x in task_data.split(',')]\<close>: the parts
  are converted from left to right and the first failure is the exception raised.\<close>

fun parse_numbers :: "nat \<Rightarrow> string list \<Rightarrow> exn + int list" where
  "parse_numbers lim [] = Inr []"
| "parse_numbers lim (x # xs) =
     (case py_int lim (py_strip x) of
        Inl e \<Rightarrow> Inl e
      | Inr n \<Rightarrow> (case parse_numbers lim xs of Inl e \<Rightarrow> Inl e | Inr ns \<Rightarrow> Inr (n # ns)))"

text \<open>The \<open>try\<close> block of \<open>Worker.process_task\<close>: the numbers, their sum, the text of the
  sum. (The \<open>print\<close> between them writes to the console only.)\<close>

definition process_task_body :: "nat \<Rightarrow> string \<Rightarrow> exn + string" where
  "process_task_body lim task_data =
     (case parse_numbers lim (py_split CHR '','' task_data) of
        Inl e \<Rightarrow> Inl e
      | Inr numbers \<Rightarrow> py_str lim (sum_list numbers))"

text \<open>
  \<open>Worker.process_task\<close>. The \<open>except (ValueError, AttributeError)\<close> clause turns those
  two exceptions into the returned text; any other exception would leave the function
  (\<open>Inl\<close>). The text \<open>str(e)\<close> of an exception is the interpreter's, taken as the
  parameter \<open>str_e\<close>.
\<close>

definition process_task :: "nat \<Rightarrow> (exn \<Rightarrow> string) \<Rightarrow> string \<Rightarrow> exn + string" where
  "process_task lim str_e task_data =
     (case process_task_body lim task_data of
        Inr result \<Rightarrow> Inr result
      | Inl (ValueError m) \<Rightarrow> Inr (''ERROR: '' @ str_e (ValueError m))
      | Inl AttributeError \<Rightarrow> Inr (''ERROR: '' @ str_e AttributeError)
      | Inl e \<Rightarrow> Inl e)"

text \<open>One turn of the loop of \<open>Worker.start\<close> on the received text: the loop ends on
  empty data, skips a message that is not a well-formed \<open>ASSIGN_TASK\<close>, and otherwise
  sends the result of \<open>process_task\<close> back.\<close>

datatype worker_action = Stop | Skip | Reply string | Crash exn

definition worker_turn :: "nat \<Rightarrow> (exn \<Rightarrow> string) \<Rightarrow> string \<Rightarrow> worker_action" where
  "worker_turn lim str_e data =
     (if data = [] then Stop
      else (case decode3 ''ASSIGN_TASK'' data of
              None \<Rightarrow> Skip
            | Some (task_id, task_data) \<Rightarrow>
                (case process_task lim str_e task_data of
                   Inl e \<Rightarrow> Crash e
                 | Inr result_data \<Rightarrow>
                     Reply (''TASK_RESULT|'' @ task_id @ ''|'' @ result_data @ ''\<newline>''))))"

section \<open>The balancer (\<open>load_balancer.py\<close>)\<close>

text \<open>
  A socket object is a handle. The state of a \<open>LoadBalancer\<close> holds its two shared
  fields, \<open>workers\<close> (a FIFO \<open>queue.Queue\<close> of \<open>(socket, worker_id)\<close>, head first) and
  \<open>task_to_client\<close> (a \<open>dict\<close>), and what its effects act on: the sockets it has closed,
  the sockets whose peer is gone (\<open>send\<close> raises \<open>OSError\<close> on both kinds), the messages
  it has sent, in order, and the \<open>threading.Timer\<close>s it has started (interval in
  seconds, then the arguments). \<open>self.running\<close> is \<open>True\<close> throughout. Each function
  below is one critical section or one turn of a session's loop, run to its end; how long
  a call waits is not part of the state.
\<close>

type_synonym sock = nat

record lb =
  workers :: "(sock \<times> string) list"
  task_to_client :: "string \<Rightarrow> sock option"
  closed_socks :: "sock set"
  broken_socks :: "sock set"
  sent :: "(sock \<times> string) list"
  timers :: "(nat \<times> string \<times> string) list"

definition sock_send :: "sock \<Rightarrow> string \<Rightarrow> lb \<Rightarrow> exn option \<times> lb" where
  "sock_send s m st =
     (if s \<in> closed_socks st \<union> broken_socks st then (Some OSError, st)
      else (None, st\<lparr>sent := sent st @ [(s, m)]\<rparr>))"

definition sock_close :: "sock \<Rightarrow> lb \<Rightarrow> lb" where
  "sock_close s st = st\<lparr>closed_socks := insert s (closed_socks st)\<rparr>"

text \<open>\<open>self.workers.get(timeout=...)\<close>: the head of the queue, or \<open>queue.Empty\<close> when the
  queue is still empty at the end of the wait.\<close>

definition workers_get :: "nat \<Rightarrow> lb \<Rightarrow> (exn + sock \<times> string) \<times> lb" where
  "workers_get timeout st =
     (case workers st of
        [] \<Rightarrow> (Inl QueueEmpty, st)
      | w # ws \<Rightarrow> (Inr w, st\<lparr>workers := ws\<rparr>))"

text \<open>\<open>self.workers.put(w)\<close>: at the tail.\<close>

definition workers_put :: "sock \<times> string \<Rightarrow> lb \<Rightarrow> lb" where
  "workers_put w st = st\<lparr>workers := workers st @ [w]\<rparr>"

text \<open>\<open>_assign_task_to_worker\<close>. Only \<open>queue.Empty\<close> is caught; an exception of \<open>send\<close>
  leaves the function, with the worker already taken from the queue.\<close>

definition assign_task_to_worker :: "string \<Rightarrow> string \<Rightarrow> lb \<Rightarrow> exn option \<times> lb" where
  "assign_task_to_worker task_id task_data st =
     (case workers_get 5 st of
        (Inr (worker_socket, worker_id), st1) \<Rightarrow>
          sock_send worker_socket
            (''ASSIGN_TASK|'' @ task_id @ ''|'' @ task_data @ ''\<newline>'') st1
      | (Inl QueueEmpty, st1) \<Rightarrow>
          (None, st1\<lparr>timers := timers st1 @ [(1, task_id, task_data)]\<rparr>)
      | (Inl e, st1) \<Rightarrow> (Some e, st1))"

text \<open>\<open>_send_result_to_client\<close>: \<open>pop(task_id, None)\<close>, then the send, whose
  \<open>OSError\<close> is caught.\<close>

definition send_result_to_client :: "string \<Rightarrow> string \<Rightarrow> lb \<Rightarrow> lb" where
  "send_result_to_client task_id result_data st =
     (let client_socket = task_to_client st task_id;
          st1 = st\<lparr>task_to_client := (task_to_client st)(task_id := None)\<rparr>
      in case client_socket of
           None \<Rightarrow> st1
         | Some c \<Rightarrow>
             snd (sock_send c (''RESULT|'' @ task_id @ ''|'' @ result_data @ ''\<newline>'') st1))"

text \<open>One turn of the loop of \<open>_handle_client\<close> on the received text. The flag says
  whether the loop goes on; when it does not, the \<open>finally\<close> clause has closed the
  client's socket.\<close>

definition handle_client :: "sock \<Rightarrow> string \<Rightarrow> lb \<Rightarrow> bool \<times> lb" where
  "handle_client client_socket data st =
     (if data = [] then (False, sock_close client_socket st)
      else (case decode3 ''TASK'' data of
              None \<Rightarrow> (True, st)
            | Some (task_id, task_data) \<Rightarrow>
                (let st1 = st\<lparr>task_to_client := (task_to_client st)(task_id \<mapsto> client_socket)\<rparr>
                 in case assign_task_to_worker task_id task_data st1 of
                      (None, st2) \<Rightarrow> (True, st2)
                    | (Some e, st2) \<Rightarrow> (False, sock_close client_socket st2))))"

text \<open>The registration at the head of \<open>_handle_worker\<close>, on the first received text:
  the registered id when the session goes on to its loop, \<open>None\<close> when it has ended (and
  the \<open>finally\<close> clause has closed the socket).\<close>

definition handle_worker_register :: "sock \<Rightarrow> string \<Rightarrow> lb \<Rightarrow> string option \<times> lb" where
  "handle_worker_register worker_socket data st =
     (if data = [] then (None, sock_close worker_socket st)
      else (case py_split CHR ''|'' (py_strip data) of
              [t, worker_id] \<Rightarrow>
                if t = ''REGISTER'' then
                  (case sock_send worker_socket (''ACK|'' @ worker_id @ ''\<newline>'') st of
                     (None, st1) \<Rightarrow> (Some worker_id, workers_put (worker_socket, worker_id) st1)
                   | (Some e, st1) \<Rightarrow> (None, sock_close worker_socket st1))
                else (None, sock_close worker_socket st)
            | _ \<Rightarrow> (None, sock_close worker_socket st)))"

text \<open>One turn of the result loop of \<open>_handle_worker\<close> on the received text.\<close>

definition handle_worker_result :: "sock \<Rightarrow> string \<Rightarrow> string \<Rightarrow> lb \<Rightarrow> bool \<times> lb" where
  "handle_worker_result worker_socket worker_id data st =
     (if data = [] then (False, sock_close worker_socket st)
      else (case decode3 ''TASK_RESULT'' data of
              None \<Rightarrow> (True, st)
            | Some (task_id, result_data) \<Rightarrow>
                (True, workers_put (worker_socket, worker_id)
                         (send_result_to_client task_id result_data st))))"

text \<open>\<open>recv\<close> raising \<open>OSError\<close> in either session: the \<open>except\<close> clause prints, the
  \<open>finally\<close> clause closes the socket, and nothing else is touched.\<close>

definition connection_lost :: "sock \<Rightarrow> lb \<Rightarrow> lb" where
  "connection_lost s st = sock_close s st"

text \<open>The \<open>i\<close>-th started timer fires: \<open>_assign_task_to_worker\<close> runs again with the
  stored arguments, on the timer's own thread, where an exception ends that thread only.\<close>

definition timer_fire :: "nat \<Rightarrow> lb \<Rightarrow> lb" where
  "timer_fire i st =
     (if i < length (timers st) then
        (case timers st ! i of
           (interval, task_id, task_data) \<Rightarrow>
             snd (assign_task_to_worker task_id task_data
                    (st\<lparr>timers := take i (timers st) @ drop (Suc i) (timers st)\<rparr>)))
      else st)"

text \<open>The balancer as \<open>__init__\<close> leaves it.\<close>

definition lb_init :: lb where
  "lb_init = \<lparr>workers = [], task_to_client = Map.empty, closed_socks = {},
              broken_socks = {}, sent = [], timers = []\<rparr>"

section \<open>Notions used by the statements\<close>

text \<open>The tags of the three-field messages.\<close>

definition wire_tags :: "string set" where
  "wire_tags = {''TASK'', ''ASSIGN_TASK'', ''TASK_RESULT''}"

text \<open>
  What an integer literal is, stated apart from the functions above. The digits of a
  literal: one decimal digit, then further digits, each of which may be preceded by a
  single underscore; the number is read in base ten. A literal is such digits, with an
  optional sign in front.
\<close>

definition digit_char :: "nat \<Rightarrow> char" where
  "digit_char d = ''0123456789'' ! d"

inductive digits_text :: "string \<Rightarrow> nat \<Rightarrow> bool" where
  one: "d < 10 \<Longrightarrow> digits_text [digit_char d] d"
| more: "digits_text s n \<Longrightarrow> d < 10 \<Longrightarrow> digits_text (s @ [digit_char d]) (10 * n + d)"
| under: "digits_text s n \<Longrightarrow> d < 10 \<Longrightarrow>
          digits_text (s @ [CHR ''_'', digit_char d]) (10 * n + d)"

inductive int_literal :: "string \<Rightarrow> int \<Rightarrow> bool" where
  plain: "digits_text s n \<Longrightarrow> int_literal s (int n)"
| plus: "digits_text s n \<Longrightarrow> int_literal (CHR ''+'' # s) (int n)"
| minus: "digits_text s n \<Longrightarrow> int_literal (CHR ''-'' # s) (- int n)"

text \<open>The whitespace characters below code point 256, and a text made of them only.\<close>

definition whitespace :: "char list" where
  "whitespace = [CHR 0x09, CHR 0x0A, CHR 0x0B, CHR 0x0C, CHR 0x0D, CHR 0x1C, CHR 0x1D,
                 CHR 0x1E, CHR 0x1F, CHR 0x20, CHR 0x85, CHR 0xA0]"

definition blank :: "string \<Rightarrow> bool" where
  "blank s = (set s \<subseteq> set whitespace)"

text \<open>A literal with any whitespace before and after it.\<close>

definition padded_literal :: "string \<Rightarrow> int \<Rightarrow> bool" where
  "padded_literal p v = (\<exists>l m r. p = l @ m @ r \<and> blank l \<and> blank r \<and> int_literal m v)"

text \<open>The number of decimal digits in a text.\<close>

definition digit_count :: "string \<Rightarrow> nat" where
  "digit_count s = length (filter (\<lambda>c. c \<in> set ''0123456789'') s)"

text \<open>\<open>sep.join(parts)\<close>.\<close>

fun join_with :: "char \<Rightarrow> string list \<Rightarrow> string" where
  "join_with sep [] = []"
| "join_with sep [p] = p"
| "join_with sep (p # q # ps) = p @ sep # join_with sep (q # ps)"

text \<open>The parts and their sum are within the interpreter's limit: there is no limit, or
  no part has more digits than the limit and the sum has no more digits than the limit.\<close>

definition within_limit :: "nat \<Rightarrow> string list \<Rightarrow> int list \<Rightarrow> bool" where
  "within_limit lim parts ns =
     (lim = 0 \<or> ((\<forall>p\<in>set parts. digit_count p \<le> lim) \<and> \<bar>sum_list ns\<bar> < 10 ^ lim))"

text \<open>The task \<open>1,-2_0,+3\<close> with a space before \<open>1\<close>, a tab before and a space after
  \<open>-2_0\<close>, and a line end after \<open>+3\<close>; and the literal of 4301 digits that denotes
  \<open>10 ^ 4300\<close>.\<close>

definition padded_task :: string where
  "padded_task = [CHR '' '', CHR ''1'', CHR '','', CHR 0x09, CHR ''-'', CHR ''2'', CHR ''_'',
                  CHR ''0'', CHR '' '', CHR '','', CHR ''+'', CHR ''3'', CHR ''\<newline>'']"

definition long_literal :: string where
  "long_literal = CHR ''1'' # replicate 4300 CHR ''0''"

text \<open>An identifier that \<open>strip\<close> and \<open>split\<close> leave as it is: no field delimiter in it and
  no whitespace at its end.\<close>

definition clean_id :: "string \<Rightarrow> bool" where
  "clean_id wid = (CHR ''|'' \<notin> set wid \<and> (wid = [] \<or> \<not> is_space (last wid)))"

text \<open>A socket on which \<open>send\<close> succeeds.\<close>

definition healthy :: "lb \<Rightarrow> sock \<Rightarrow> bool" where
  "healthy st s = (s \<notin> closed_socks st \<union> broken_socks st)"

text \<open>A balancer with one idle worker and a pending task \<open>t1\<close> of the client on socket 7.\<close>

definition dup_state :: lb where
  "dup_state = lb_init\<lparr>workers := [(1, ''w1'')], task_to_client := [''t1'' \<mapsto> 7]\<rparr>"

text \<open>A balancer with two idle workers, the peer of the first one gone.\<close>

definition two_workers :: lb where
  "two_workers = lb_init\<lparr>workers := [(1, ''w1''), (2, ''w2'')], broken_socks := {1}\<rparr>"

text \<open>Workers registering one after the other, each with its \<open>REGISTER\<close> line, and tasks
  dispatched one after the other.\<close>

fun register_all :: "(sock \<times> string) list \<Rightarrow> lb \<Rightarrow> lb" where
  "register_all [] st = st"
| "register_all (w # ws) st =
     register_all ws
       (snd (handle_worker_register (fst w) (''REGISTER|'' @ snd w @ ''\<newline>'') st))"

fun dispatch_all :: "(string \<times> string) list \<Rightarrow> lb \<Rightarrow> lb" where
  "dispatch_all [] st = st"
| "dispatch_all (t # ts) st =
     dispatch_all ts (snd (assign_task_to_worker (fst t) (snd t) st))"

text \<open>The message that gives task \<open>t\<close> to worker \<open>w\<close>, with the socket it goes to.\<close>

definition assignment :: "sock \<times> string \<Rightarrow> string \<times> string \<Rightarrow> sock \<times> string" where
  "assignment w t = (fst w, ''ASSIGN_TASK|'' @ fst t @ ''|'' @ snd t @ ''\<newline>'')"

text \<open>The scenario of the specification: worker \<open>w1\<close> registers on socket 1, the client on
  socket 2 sends \<open>TASK|t1|1,2,3,4,5\<close>, the worker's answer comes back.\<close>

definition scenario_registered :: lb where
  "scenario_registered = snd (handle_worker_register 1 ''REGISTER|w1\<newline>'' lb_init)"

definition scenario_assigned :: lb where
  "scenario_assigned = snd (handle_client 2 ''TASK|t1|1,2,3,4,5\<newline>'' scenario_registered)"

definition scenario_done :: lb where
  "scenario_done =
     snd (handle_worker_result 1 ''w1'' ''TASK_RESULT|t1|15\<newline>'' scenario_assigned)"

text \<open>Worker \<open>w1\<close> has registered and its connection has closed while it was idle
  (\<open>recv\<close> returned no data).\<close>

definition idle_worker_gone :: lb where
  "idle_worker_gone = snd (handle_worker_result 1 ''w1'' [] scenario_registered)"

text \<open>
  What can happen to a running balancer, one event at a time: text arrives on a client's
  socket, a first text arrives on a worker's socket, a later text arrives on the socket
  of the worker registered as \<open>wid\<close>, \<open>recv\<close> fails on a socket, the peer of a socket goes
  away, a started timer fires. A run is a sequence of events; the events of different
  sessions interleave in any order.
\<close>

datatype event =
    ClientData sock string
  | WorkerHello sock string
  | WorkerData sock string string
  | ConnectionLost sock
  | PeerGone sock
  | TimerFires nat

fun step :: "event \<Rightarrow> lb \<Rightarrow> lb" where
  "step (ClientData c data) st = snd (handle_client c data st)"
| "step (WorkerHello s data) st = snd (handle_worker_register s data st)"
| "step (WorkerData s wid data) st = snd (handle_worker_result s wid data st)"
| "step (ConnectionLost s) st = connection_lost s st"
| "step (PeerGone s) st = st\<lparr>broken_socks := insert s (broken_socks st)\<rparr>"
| "step (TimerFires i) st = timer_fire i st"

fun run :: "event list \<Rightarrow> lb \<Rightarrow> lb" where
  "run [] st = st"
| "run (e # es) st = run es (step e st)"

text \<open>The event admits a task with this id.\<close>

fun admits :: "string \<Rightarrow> event \<Rightarrow> bool" where
  "admits task_id (ClientData c data) =
     (case decode3 ''TASK'' data of None \<Rightarrow> False | Some (t, td) \<Rightarrow> t = task_id)"
| "admits task_id e = False"

definition starts_with :: "string \<Rightarrow> string \<Rightarrow> bool" where
  "starts_with p m = (take (length p) m = p)"

text \<open>The number of \<open>RESULT\<close> messages sent so far for a task id, and the number of ledger
  entries for it (0 or 1).\<close>

definition results_for :: "string \<Rightarrow> lb \<Rightarrow> nat" where
  "results_for task_id st =
     length (filter (\<lambda>p. starts_with (''RESULT|'' @ task_id @ ''|'') (snd p)) (sent st))"

definition pending :: "string \<Rightarrow> lb \<Rightarrow> nat" where
  "pending task_id st = (case task_to_client st task_id of None \<Rightarrow> 0 | Some c \<Rightarrow> 1)"

text \<open>A task is admitted, its result arrives, and the worker's result line is then
  repeated and varied.\<close>

definition replayed_result :: "event list" where
  "replayed_result =
     [ClientData 2 ''TASK|t1|1,2,3,4,5\<newline>'',
      WorkerData 1 ''w1'' ''TASK_RESULT|t1|15\<newline>'',
      WorkerData 1 ''w1'' ''TASK_RESULT|t1|15\<newline>'',
      WorkerData 1 ''w1'' ''TASK_RESULT|t1|16\<newline>'']"

text \<open>The same task id admitted again after its result has been routed.\<close>

definition readmitted :: "event list" where
  "readmitted =
     [ClientData 2 ''TASK|t1|1\<newline>'',
      WorkerData 1 ''w1'' ''TASK_RESULT|t1|1\<newline>'',
      ClientData 2 ''TASK|t1|2\<newline>'',
      WorkerData 1 ''w1'' ''TASK_RESULT|t1|2\<newline>'']"

section \<open>Properties\<close>

subsection \<open>Cutting and stripping\<close>

lemma split_at_append:
  "sep \<notin> set a \<Longrightarrow> split_at sep (a @ sep # b) = Some (a, b)"
  by (induction a) auto

lemma split_at_none: "sep \<notin> set s \<Longrightarrow> split_at sep s = None"
  by (induction s) auto

lemma split_at_some:
  "split_at sep s = Some (a, b) \<Longrightarrow> s = a @ sep # b \<and> sep \<notin> set a"
  by (induction s arbitrary: a) (auto split: if_splits option.splits)

lemma py_split_n_length: "length (py_split_n sep n s) \<le> Suc n"
  by (induction n arbitrary: s) (auto split: option.splits)

lemma py_split_n_three:
  assumes "sep \<notin> set t" "sep \<notin> set a"
  shows "py_split_n sep 2 (t @ sep # a @ sep # b) = [t, a, b]"
proof -
  have "py_split_n sep (Suc (Suc 0)) (t @ sep # a @ sep # b) = [t, a, b]"
    using assms by (simp add: split_at_append)
  then show ?thesis by (simp add: numeral_2_eq_2)
qed

lemma dropWhile_stop:
  "\<not> P y \<Longrightarrow> dropWhile P (xs @ y # ys) = dropWhile P xs @ y # ys"
  by (induction xs) auto

lemma py_rstrip_line:
  assumes "\<not> is_space y"
  shows "py_rstrip (xs @ y # payload @ ''\<newline>'') = xs @ y # py_rstrip payload"
proof -
  have nl: "is_space CHR ''\<newline>''" by (simp add: is_space_def)
  have "rev (xs @ y # payload @ ''\<newline>'') = CHR ''\<newline>'' # (rev payload @ y # rev xs)"
    by simp
  then have "dropWhile is_space (rev (xs @ y # payload @ ''\<newline>''))
      = dropWhile is_space (rev payload) @ y # rev xs"
    using nl assms by (simp add: dropWhile_stop)
  then show ?thesis by (simp add: py_rstrip_def)
qed

lemma py_rstrip_id: "s = [] \<or> \<not> is_space (last s) \<Longrightarrow> py_rstrip s = s"
  by (cases s rule: rev_cases) (auto simp: py_rstrip_def)

lemma py_lstrip_id: "\<not> is_space c \<Longrightarrow> py_lstrip (c # cs) = c # cs"
  by (simp add: py_lstrip_def)

lemma bar_not_space: "\<not> is_space CHR ''|''" by (simp add: is_space_def)

lemma decode3_line:
  assumes tag: "tag = c # cs" "\<not> is_space c" "CHR ''|'' \<notin> set tag"
    and id: "CHR ''|'' \<notin> set task_id"
  shows "decode3 tag (tag @ ''|'' @ task_id @ ''|'' @ payload @ ''\<newline>'')
         = Some (task_id, py_rstrip payload)"
proof -
  let ?line = "tag @ ''|'' @ task_id @ ''|'' @ payload @ ''\<newline>''"
  have l: "py_lstrip ?line = ?line" using tag by (simp add: py_lstrip_def)
  have "?line = (tag @ ''|'' @ task_id) @ CHR ''|'' # payload @ ''\<newline>''" by simp
  then have "py_rstrip ?line = (tag @ ''|'' @ task_id) @ CHR ''|'' # py_rstrip payload"
    using py_rstrip_line [OF bar_not_space] by metis
  then have "py_strip ?line = tag @ CHR ''|'' # task_id @ CHR ''|'' # py_rstrip payload"
    using l by (simp add: py_strip_def)
  then show ?thesis
    using tag(3) id by (simp add: decode3_def py_split_n_three)
qed

lemma split_at_shorter: "split_at sep s = Some (a, b) \<Longrightarrow> length b < length s"
  by (induction s arbitrary: a) (auto split: if_splits option.splits)

lemma py_split_n_enough:
  "length s \<le> n \<Longrightarrow> length s \<le> m \<Longrightarrow> py_split_n sep n s = py_split_n sep m s"
proof (induction n arbitrary: s m)
  case 0
  then show ?case by (cases m) auto
next
  case (Suc n)
  show ?case
  proof (cases m)
    case 0
    with Suc.prems show ?thesis by auto
  next
    case (Suc m')
    show ?thesis
    proof (cases "split_at sep s")
      case None
      then show ?thesis using Suc by simp
    next
      case (Some ab)
      obtain a b where ab: "ab = (a, b)" by (cases ab)
      have "length b < length s" using Some ab split_at_shorter by blast
      then have "length b \<le> n" "length b \<le> m'" using Suc.prems Suc by auto
      then have "py_split_n sep n b = py_split_n sep m' b" by (rule Suc.IH)
      then show ?thesis using Some ab Suc by simp
    qed
  qed
qed

lemma py_split_unbounded: "length s \<le> n \<Longrightarrow> py_split_n sep n s = py_split sep s"
  unfolding py_split_def by (rule py_split_n_enough) auto

lemma py_rstrip_decomp:
  "\<exists>ws. payload = py_rstrip payload @ ws \<and> (\<forall>c\<in>set ws. is_space c)"
proof -
  let ?ws = "rev (takeWhile is_space (rev payload))"
  have "rev payload = takeWhile is_space (rev payload) @ dropWhile is_space (rev payload)"
    by simp
  then have "payload = rev (dropWhile is_space (rev payload)) @ ?ws"
    by (metis rev_append rev_rev_ident)
  moreover have "\<forall>c\<in>set ?ws. is_space c"
    by (auto dest: set_takeWhileD)
  ultimately show ?thesis unfolding py_rstrip_def by blast
qed

subsection \<open>The last field of a message\<close>

lemma wire_tag_shape:
  assumes "tag \<in> wire_tags"
  shows "\<exists>c cs. tag = c # cs \<and> \<not> is_space c \<and> CHR ''|'' \<notin> set tag"
proof -
  have "tag = ''TASK'' \<or> tag = ''ASSIGN_TASK'' \<or> tag = ''TASK_RESULT''"
    using assms by (simp add: wire_tags_def)
  then show ?thesis
    by (elim disjE) (simp_all add: is_space_def)
qed

text \<open>
  Claim C8, as the code has it. A line \<open>TAG|task_id|payload\<close> with its line terminator
  decodes to the id and to the payload without its trailing whitespace: \<open>strip\<close> is
  applied to the whole line before it is cut, so what is lost of the payload is a run of
  whitespace at its end and nothing else; every \<open>|\<close> of the payload is kept, and a payload
  that does not end in whitespace is returned as it is. The cut never gives more than
  three parts.
\<close>

theorem decode3_last_field:
  assumes "tag \<in> wire_tags" and "CHR ''|'' \<notin> set task_id"
  shows "decode3 tag (tag @ ''|'' @ task_id @ ''|'' @ payload @ ''\<newline>'')
           = Some (task_id, py_rstrip payload)
       \<and> (\<exists>ws. payload = py_rstrip payload @ ws \<and> (\<forall>c\<in>set ws. is_space c))
       \<and> (payload = [] \<or> \<not> is_space (last payload) \<longrightarrow> py_rstrip payload = payload)
       \<and> length (py_split_n CHR ''|'' 2 (py_strip data)) \<le> 3"
proof (intro conjI impI)
  obtain c cs where "tag = c # cs" "\<not> is_space c" "CHR ''|'' \<notin> set tag"
    using wire_tag_shape [OF assms(1)] by blast
  then show "decode3 tag (tag @ ''|'' @ task_id @ ''|'' @ payload @ ''\<newline>'')
           = Some (task_id, py_rstrip payload)"
    using assms(2) by (rule decode3_line)
  show "length (py_split_n CHR ''|'' 2 (py_strip data)) \<le> 3"
    using py_split_n_length [of "CHR ''|''" 2 "py_strip data"] by simp
  show "\<exists>ws. payload = py_rstrip payload @ ws \<and> (\<forall>c\<in>set ws. is_space c)"
    by (rule py_rstrip_decomp)
  show "py_rstrip payload = payload" if "payload = [] \<or> \<not> is_space (last payload)"
    using that by (rule py_rstrip_id)
qed

text \<open>
  The decoding theorem on a payload with two delimiters in it.
\<close>

theorem decode3_last_field_witness:
  "decode3 ''TASK'' ''TASK|t1|a|b,|c\<newline>'' = Some (''t1'', ''a|b,|c'')"
proof -
  have a: "''TASK'' \<in> wire_tags" by (simp add: wire_tags_def)
  have b: "CHR ''|'' \<notin> set ''t1''" by simp
  have c: "py_rstrip ''a|b,|c'' = ''a|b,|c''" by (simp add: py_rstrip_def is_space_def)
  show ?thesis
    using decode3_last_field [OF a b, of "''a|b,|c''"] c by simp
qed

text \<open>
  Claim C8 as stated fails: the payload \<open>a|b\<close> followed by a space is not returned
  verbatim, the space is gone.
\<close>

theorem decode3_trailing_space_counterexample:
  "decode3 ''TASK'' (''TASK'' @ ''|'' @ ''t1'' @ ''|'' @ ''a|b '' @ ''\<newline>'')
     \<noteq> Some (''t1'', ''a|b '')"
  by code_simp

subsection \<open>Digits and whitespace\<close>

lemma less_10_cases:
  "(d::nat) < 10 \<Longrightarrow> d = 0 \<or> d = 1 \<or> d = 2 \<or> d = 3 \<or> d = 4 \<or> d = 5 \<or> d = 6 \<or> d = 7
     \<or> d = 8 \<or> d = 9"
  by arith

lemma of_char_digit_char: "d < 10 \<Longrightarrow> (of_char (digit_char d) :: nat) = 48 + d"
  by (drule less_10_cases) (elim disjE, simp_all add: digit_char_def)

lemma digit_char_code: "d < 10 \<Longrightarrow> digit_char d = char_of (48 + d)"
proof -
  assume "d < 10"
  then have "char_of (of_char (digit_char d) :: nat) = (char_of (48 + d) :: char)"
    by (simp only: of_char_digit_char)
  then show ?thesis by simp
qed

lemma digit_of_digit_char: "d < 10 \<Longrightarrow> digit_of (digit_char d) = Some d"
  by (simp add: digit_of_def of_char_digit_char)

lemma digit_char_neq:
  assumes "d < 10"
  shows "digit_char d \<noteq> CHR ''_''" "digit_char d \<noteq> CHR ''-''" "digit_char d \<noteq> CHR ''+''"
    "digit_char d \<noteq> CHR '',''" "\<not> is_space (digit_char d)"
    "digit_char d \<in> set ''0123456789''"
  using less_10_cases [OF assms]
  by (elim disjE; simp add: digit_char_def is_space_def)+

lemma digit_of_Some:
  assumes "digit_of c = Some d"
  shows "d < 10 \<and> c = digit_char d"
proof -
  let ?n = "of_char c :: nat"
  have n: "48 \<le> ?n" "?n \<le> 57" "d = ?n - 48"
    using assms by (auto simp: digit_of_def Let_def split: if_splits)
  then have d: "d < 10" by arith
  have "char_of (48 + d) = (char_of ?n :: char)" using n by simp
  then have "digit_char d = c" using d by (simp add: digit_char_code)
  then show ?thesis using d by simp
qed

lemma is_space_whitespace: "is_space c \<longleftrightarrow> c \<in> set whitespace"
proof -
  have "c \<in> set whitespace \<longleftrightarrow> (of_char c :: nat) \<in> of_char ` set whitespace"
    by (simp only: inj_image_mem_iff [OF inj_of_char])
  also have "(of_char ` set whitespace :: nat set)
      = {9, 10, 11, 12, 13, 28, 29, 30, 31, 32, 133, 160}"
    by (simp add: whitespace_def)
  finally show ?thesis by (simp add: is_space_def)
qed

lemma blank_iff: "blank s \<longleftrightarrow> (\<forall>c\<in>set s. is_space c)"
  by (auto simp: blank_def is_space_whitespace)

subsection \<open>The digits that int accepts\<close>

lemma int_digits_digit_char:
  "d < 10 \<Longrightarrow> int_digits p acc (digit_char d # rest) = int_digits True (10 * acc + d) rest"
  by (simp add: digit_of_digit_char digit_char_neq)

lemma digits_text_sound:
  "digits_text s n \<Longrightarrow> int_digits False 0 (s @ rest) = int_digits True n rest"
proof (induction arbitrary: rest rule: digits_text.induct)
  case (one d)
  then show ?case using int_digits_digit_char [of d False 0 rest] by simp
next
  case (more s n d)
  have "int_digits False 0 ((s @ [digit_char d]) @ rest)
      = int_digits False 0 (s @ (digit_char d # rest))"
    by simp
  also have "\<dots> = int_digits True n (digit_char d # rest)" by (rule more.IH)
  also have "\<dots> = int_digits True (10 * n + d) rest"
    using more.hyps(2) by (rule int_digits_digit_char)
  finally show ?case .
next
  case (under s n d)
  have "int_digits False 0 ((s @ [CHR ''_'', digit_char d]) @ rest)
      = int_digits False 0 (s @ (CHR ''_'' # digit_char d # rest))"
    by simp
  also have "\<dots> = int_digits True n (CHR ''_'' # digit_char d # rest)" by (rule under.IH)
  also have "\<dots> = int_digits False n (digit_char d # rest)" by simp
  also have "\<dots> = int_digits True (10 * n + d) rest"
    using under.hyps(2) by (rule int_digits_digit_char)
  finally show ?case .
qed

lemma digits_text_accepted: "digits_text s n \<Longrightarrow> int_digits False 0 s = Some n"
  using digits_text_sound [of s n "[]"] by simp

lemma int_digits_complete_aux:
  "(digits_text pre acc \<longrightarrow> int_digits True acc s = Some n \<longrightarrow> digits_text (pre @ s) n)
   \<and> (digits_text pre acc \<longrightarrow> int_digits False acc s = Some n
        \<longrightarrow> digits_text (pre @ CHR ''_'' # s) n)"
proof (induction s arbitrary: pre acc)
  case Nil
  then show ?case by auto
next
  case (Cons c cs)
  show ?case
  proof (cases "c = CHR ''_''")
    case True
    then show ?thesis using Cons.IH [of pre acc] by simp
  next
    case False
    show ?thesis
    proof (cases "digit_of c")
      case None
      then show ?thesis using False by simp
    next
      case (Some d)
      then have d: "d < 10" "c = digit_char d" using digit_of_Some by blast+
      have 1: "digits_text (pre @ c # cs) n"
        if "digits_text pre acc" "int_digits True acc (c # cs) = Some n"
      proof -
        have "digits_text (pre @ [c]) (10 * acc + d)"
          using that(1) d by (auto intro: digits_text.more)
        moreover have "int_digits True (10 * acc + d) cs = Some n"
          using that(2) False Some by simp
        ultimately have "digits_text ((pre @ [c]) @ cs) n"
          using Cons.IH [of "pre @ [c]" "10 * acc + d"] by blast
        then show ?thesis by simp
      qed
      have 2: "digits_text (pre @ CHR ''_'' # c # cs) n"
        if "digits_text pre acc" "int_digits False acc (c # cs) = Some n"
      proof -
        have "digits_text (pre @ [CHR ''_'', c]) (10 * acc + d)"
          using that(1) d by (auto intro: digits_text.under)
        moreover have "int_digits True (10 * acc + d) cs = Some n"
          using that(2) False Some by simp
        ultimately have "digits_text ((pre @ [CHR ''_'', c]) @ cs) n"
          using Cons.IH [of "pre @ [CHR ''_'', c]" "10 * acc + d"] by blast
        then show ?thesis by simp
      qed
      show ?thesis using 1 2 by blast
    qed
  qed
qed

lemma digits_text_complete:
  assumes "int_digits False 0 s = Some n"
  shows "digits_text s n"
proof (cases s)
  case Nil
  then show ?thesis using assms by simp
next
  case (Cons c cs)
  have u: "c \<noteq> CHR ''_''" using assms Cons by (auto split: if_splits)
  then obtain d where dc: "digit_of c = Some d"
    using assms Cons by (cases "digit_of c") auto
  then have d: "d < 10" "c = digit_char d" using digit_of_Some by blast+
  have "digits_text [c] d" using d by (auto intro: digits_text.one)
  moreover have "int_digits True d cs = Some n"
    using assms Cons u dc by simp
  ultimately have "digits_text ([c] @ cs) n"
    using int_digits_complete_aux [of "[c]" d cs n] by blast
  then show ?thesis using Cons by simp
qed

lemma digits_text_iff: "digits_text s n \<longleftrightarrow> int_digits False 0 s = Some n"
  using digits_text_accepted digits_text_complete by blast

lemma digits_text_shape:
  "digits_text s n \<Longrightarrow>
     s \<noteq> [] \<and> (\<exists>d<10. hd s = digit_char d) \<and> (\<exists>d<10. last s = digit_char d)
     \<and> set s \<subseteq> insert CHR ''_'' (set ''0123456789'')
     \<and> length (filter (\<lambda>c. c \<noteq> CHR ''_'') s) = digit_count s
     \<and> 0 < digit_count s \<and> n < 10 ^ digit_count s"
proof (induction rule: digits_text.induct)
  case (one d)
  then show ?case
    using digit_char_neq [of d] by (auto simp: digit_count_def)
next
  case (more s n d)
  have "10 * n + d < 10 * 10 ^ digit_count s" using more by simp
  then show ?case
    using more digit_char_neq [of d] by (auto simp: digit_count_def hd_append)
next
  case (under s n d)
  have "10 * n + d < 10 * 10 ^ digit_count s" using under by simp
  then show ?case
    using under digit_char_neq [of d] by (auto simp: digit_count_def hd_append)
qed

subsection \<open>Literals and strip\<close>

lemma dropWhile_all: "\<forall>c\<in>set l. P c \<Longrightarrow> dropWhile P (l @ ys) = dropWhile P ys"
  by (induction l) auto

lemma strip_decomp: "\<exists>l r. p = l @ py_strip p @ r \<and> blank l \<and> blank r"
proof -
  let ?q = "dropWhile is_space p"
  obtain ws where ws: "?q = py_rstrip ?q @ ws" "\<forall>c\<in>set ws. is_space c"
    using py_rstrip_decomp [of ?q] by blast
  have "p = takeWhile is_space p @ ?q" by simp
  then have "p = takeWhile is_space p @ py_strip p @ ws"
    using ws(1) by (simp add: py_strip_def py_lstrip_def)
  moreover have "blank (takeWhile is_space p)"
    by (auto simp: blank_iff dest: set_takeWhileD)
  moreover have "blank ws" using ws(2) by (simp add: blank_iff)
  ultimately show ?thesis by blast
qed

lemma strip_core:
  assumes "blank l" "blank r" "m \<noteq> []" "\<not> is_space (hd m)" "\<not> is_space (last m)"
  shows "py_strip (l @ m @ r) = m"
proof -
  obtain c cs where m: "m = c # cs" using assms(3) by (cases m) auto
  have "dropWhile is_space (l @ m @ r) = dropWhile is_space (m @ r)"
    using assms(1) by (intro dropWhile_all) (simp add: blank_iff)
  also have "\<dots> = m @ r" using assms(4) m by simp
  finally have l: "py_lstrip (l @ m @ r) = m @ r" by (simp add: py_lstrip_def)
  obtain ms x where x: "m = ms @ [x]" using assms(3) by (cases m rule: rev_cases) auto
  then have nx: "\<not> is_space x" using assms(5) by simp
  have "dropWhile is_space (rev (m @ r)) = dropWhile is_space (rev r @ x # rev ms)"
    using x by simp
  also have "\<dots> = dropWhile is_space (x # rev ms)"
    using assms(2) by (intro dropWhile_all) (simp add: blank_iff)
  also have "\<dots> = x # rev ms" using nx by simp
  finally have "py_rstrip (m @ r) = m" using x by (simp add: py_rstrip_def)
  then show ?thesis using l by (simp add: py_strip_def)
qed

lemma digit_not_space: "c \<in> set ''0123456789'' \<Longrightarrow> \<not> is_space c"
  by (auto simp: is_space_def)

lemma digit_count_append [simp]: "digit_count (a @ b) = digit_count a + digit_count b"
  by (simp add: digit_count_def)

lemma digit_count_blank: "blank l \<Longrightarrow> digit_count l = 0"
  using digit_not_space by (auto simp: digit_count_def blank_iff filter_empty_conv)

lemma digit_count_padded:
  "blank l \<Longrightarrow> blank r \<Longrightarrow> digit_count (l @ m @ r) = digit_count m"
  by (simp add: digit_count_blank)

lemma digit_count_strip: "digit_count (py_strip p) = digit_count p"
proof -
  obtain l r where "p = l @ py_strip p @ r" "blank l" "blank r"
    using strip_decomp by blast
  then show ?thesis using digit_count_padded by metis
qed

lemma int_literal_shape:
  assumes "int_literal m v"
  shows "m \<noteq> [] \<and> \<not> is_space (hd m) \<and> \<not> is_space (last m) \<and> CHR '','' \<notin> set m"
proof -
  have d: "s \<noteq> [] \<and> \<not> is_space (hd s) \<and> \<not> is_space (last s) \<and> CHR '','' \<notin> set s"
    if "digits_text s n" for s n
  proof -
    from digits_text_shape [OF that] obtain a b where
      s: "s \<noteq> []" "a < 10" "hd s = digit_char a" "b < 10" "last s = digit_char b"
        "set s \<subseteq> insert CHR ''_'' (set ''0123456789'')"
      by blast
    have "CHR '','' \<notin> set s" using s(6) by auto
    then show ?thesis using s digit_char_neq(5) by simp
  qed
  from assms show ?thesis
  proof cases
    case (plain n)
    then show ?thesis using d by blast
  next
    case (plus s n)
    then show ?thesis using d [of s n] by (simp add: is_space_def)
  next
    case (minus s n)
    then show ?thesis using d [of s n] by (simp add: is_space_def)
  qed
qed

lemma int_of_body_Inr:
  "int_of_body lim s neg body = Inr v \<longleftrightarrow>
     (\<exists>n. digits_text body n \<and> \<not> over_limit lim (digit_count body) (digit_count body)
          \<and> v = (if neg then - int n else int n))"
proof (cases "int_digits False 0 body")
  case None
  then show ?thesis by (auto simp: int_of_body_def digits_text_iff)
next
  case (Some n)
  then have t: "digits_text body n" by (simp add: digits_text_iff)
  then have c: "length (filter (\<lambda>c. c \<noteq> CHR ''_'') body) = digit_count body"
    using digits_text_shape by blast
  show ?thesis
    using Some c by (auto simp: int_of_body_def digits_text_iff Let_def)
qed

subsection \<open>The texts that int accepts\<close>

lemma padded_literal_strip: "padded_literal (py_strip p) v \<longleftrightarrow> padded_literal p v"
proof
  assume "padded_literal (py_strip p) v"
  then obtain l m r where s: "py_strip p = l @ m @ r" "blank l" "blank r" "int_literal m v"
    unfolding padded_literal_def by blast
  obtain l' r' where p: "p = l' @ py_strip p @ r'" "blank l'" "blank r'"
    using strip_decomp by blast
  have "p = (l' @ l) @ m @ (r @ r')" using p(1) s(1) by simp
  moreover have "blank (l' @ l)" "blank (r @ r')"
    using s p by (simp_all add: blank_def)
  ultimately show "padded_literal p v"
    using s(4) unfolding padded_literal_def by blast
next
  assume "padded_literal p v"
  then obtain l m r where s: "p = l @ m @ r" "blank l" "blank r" "int_literal m v"
    unfolding padded_literal_def by blast
  have "py_strip p = m"
    unfolding s(1) using s(2,3) int_literal_shape [OF s(4)] by (intro strip_core) simp_all
  then have "py_strip p = [] @ m @ []" by simp
  moreover have "blank []" by (simp add: blank_def)
  ultimately show "padded_literal (py_strip p) v"
    using s(4) unfolding padded_literal_def by blast
qed

lemma digit_count_sign [simp]:
  "digit_count (CHR ''-'' # s) = digit_count s" "digit_count (CHR ''+'' # s) = digit_count s"
  by (simp_all add: digit_count_def)

lemma py_int_stripped:
  assumes "py_strip t = m"
  shows "py_int lim t = Inr v \<longleftrightarrow>
           int_literal m v \<and> \<not> over_limit lim (digit_count m) (digit_count m)"
proof (cases m)
  case Nil
  have "\<not> int_literal [] v" using int_literal_shape by blast
  then show ?thesis using assms Nil by (simp add: py_int_def)
next
  case (Cons c cs)
  show ?thesis
  proof (cases "c = CHR ''-''")
    case True
    have "\<not> digits_text (CHR ''-'' # cs) k" for k
      using digits_text_shape [of "CHR ''-'' # cs" k] digit_char_neq(2) by fastforce
    then have "int_literal m v \<longleftrightarrow> (\<exists>n. digits_text cs n \<and> v = - int n)"
      using Cons True by (auto elim: int_literal.cases intro: int_literal.minus)
    moreover have "py_int lim t = int_of_body lim t True cs"
      using assms Cons True by (simp add: py_int_def)
    ultimately show ?thesis
      using Cons True by (auto simp: int_of_body_Inr)
  next
    case False
    note nm = False
    show ?thesis
    proof (cases "c = CHR ''+''")
      case True
      have "\<not> digits_text (CHR ''+'' # cs) k" for k
        using digits_text_shape [of "CHR ''+'' # cs" k] digit_char_neq(3) by fastforce
      then have "int_literal m v \<longleftrightarrow> (\<exists>n. digits_text cs n \<and> v = int n)"
        using Cons True by (auto elim: int_literal.cases intro: int_literal.plus)
      moreover have "py_int lim t = int_of_body lim t False cs"
        using assms Cons True by (simp add: py_int_def)
      ultimately show ?thesis
        using Cons True by (auto simp: int_of_body_Inr)
    next
      case False
      have "int_literal m v \<longleftrightarrow> (\<exists>n. digits_text m n \<and> v = int n)"
        using Cons False nm by (auto elim: int_literal.cases intro: int_literal.plain)
      moreover have "py_int lim t = int_of_body lim t False m"
        using assms Cons False nm by (simp add: py_int_def)
      ultimately show ?thesis
        by (auto simp: int_of_body_Inr)
    qed
  qed
qed

lemma py_int_Inr_iff:
  "py_int lim t = Inr v \<longleftrightarrow>
     padded_literal t v \<and> \<not> over_limit lim (digit_count t) (digit_count t)"
proof -
  have 1: "py_int lim t = Inr v \<longleftrightarrow>
      int_literal (py_strip t) v
      \<and> \<not> over_limit lim (digit_count (py_strip t)) (digit_count (py_strip t))"
    by (rule py_int_stripped) simp
  have 2: "int_literal (py_strip t) v \<longleftrightarrow> padded_literal t v"
  proof
    assume a: "int_literal (py_strip t) v"
    have "py_strip t = [] @ py_strip t @ []" "blank []" by (simp_all add: blank_def)
    then have "padded_literal (py_strip t) v"
      using a unfolding padded_literal_def by blast
    then show "padded_literal t v" by (simp add: padded_literal_strip)
  next
    assume "padded_literal t v"
    then obtain l m r where s: "t = l @ m @ r" "blank l" "blank r" "int_literal m v"
      unfolding padded_literal_def by blast
    have "py_strip t = m"
      unfolding s(1) using s(2,3) int_literal_shape [OF s(4)] by (intro strip_core) simp_all
    then show "int_literal (py_strip t) v" using s(4) by simp
  qed
  show ?thesis using 1 2 by (simp add: digit_count_strip)
qed

lemma py_int_Inl: "py_int lim t = Inl e \<Longrightarrow> \<exists>m. e = ValueError m"
  by (auto simp: py_int_def int_of_body_def Let_def split: list.splits if_splits option.splits)

lemma py_int_of_part:
  "py_int lim (py_strip x) = Inr v \<longleftrightarrow>
     padded_literal x v \<and> \<not> over_limit lim (digit_count x) (digit_count x)"
  by (simp add: py_int_Inr_iff padded_literal_strip digit_count_strip)

subsection \<open>split and join; the decimal text\<close>

lemma py_split_none: "split_at sep s = None \<Longrightarrow> py_split sep s = [s]"
  by (cases s) (simp_all add: py_split_def)

lemma py_split_some:
  assumes "split_at sep s = Some (a, b)"
  shows "py_split sep s = a # py_split sep b"
proof -
  obtain k where k: "length s = Suc k" using assms by (cases s) auto
  have "length b < length s" using assms by (rule split_at_shorter)
  then have "py_split_n sep k b = py_split sep b"
    using k by (intro py_split_unbounded) simp
  then show ?thesis using assms k by (simp add: py_split_def)
qed

lemma py_split_nonempty: "py_split sep s \<noteq> []"
  by (cases "split_at sep s") (auto simp: py_split_none py_split_some)

lemma join_split: "join_with sep (py_split sep s) = s"
proof (induction "length s" arbitrary: s rule: less_induct)
  case less
  show ?case
  proof (cases "split_at sep s")
    case None
    then show ?thesis by (simp add: py_split_none)
  next
    case (Some ab)
    obtain a b where ab: "split_at sep s = Some (a, b)" using Some by (cases ab) simp
    have "length b < length s" using ab by (rule split_at_shorter)
    then have j: "join_with sep (py_split sep b) = b" by (rule less)
    obtain q qs where q: "py_split sep b = q # qs"
      using py_split_nonempty [of sep b] by (cases "py_split sep b") auto
    have "join_with sep (py_split sep s) = a @ sep # join_with sep (py_split sep b)"
      using ab q by (simp add: py_split_some)
    then show ?thesis using j split_at_some [OF ab] by simp
  qed
qed

lemma split_join:
  "parts \<noteq> [] \<Longrightarrow> \<forall>p\<in>set parts. sep \<notin> set p \<Longrightarrow>
   py_split sep (join_with sep parts) = parts"
proof (induction sep parts rule: join_with.induct)
  case (1 sep)
  then show ?case by simp
next
  case (2 sep p)
  then show ?case by (simp add: py_split_none split_at_none)
next
  case (3 sep p q ps)
  have "split_at sep (p @ sep # join_with sep (q # ps)) = Some (p, join_with sep (q # ps))"
    using 3(3) by (intro split_at_append) simp
  then have "py_split sep (join_with sep (p # q # ps)) = p # py_split sep (join_with sep (q # ps))"
    by (simp add: py_split_some)
  then show ?case using 3 by simp
qed

lemma py_split_parts_no_sep: "p \<in> set (py_split sep s) \<Longrightarrow> sep \<notin> set p"
proof (induction "length s" arbitrary: s rule: less_induct)
  case less
  show ?case
  proof (cases "split_at sep s")
    case None
    then have "p = s" using less.prems by (simp add: py_split_none)
    moreover have "sep \<notin> set s"
    proof
      assume "sep \<in> set s"
      then obtain a b where "s = a @ sep # b" "sep \<notin> set a"
        by (meson split_list_first)
      then show False using None split_at_append by fastforce
    qed
    ultimately show ?thesis by simp
  next
    case (Some ab)
    obtain a b where ab: "split_at sep s = Some (a, b)" using Some by (cases ab) simp
    have "p = a \<or> p \<in> set (py_split sep b)"
      using less.prems ab by (simp add: py_split_some)
    moreover have "length b < length s" using ab by (rule split_at_shorter)
    ultimately show ?thesis using less.hyps split_at_some [OF ab] by blast
  qed
qed

lemma str_nat_digits_text: "digits_text (str_nat n) n"
proof (induction n rule: str_nat.induct)
  case (1 n)
  show ?case
  proof (cases "n < 10")
    case True
    then have "str_nat n = [digit_char n]"
      by (simp add: str_nat.simps digit_char_code)
    then show ?thesis using True by (simp add: digits_text.one)
  next
    case False
    have m: "n mod 10 < 10" by simp
    have "str_nat n = str_nat (n div 10) @ [digit_char (n mod 10)]"
      using False by (subst str_nat.simps) (simp add: digit_char_code)
    moreover have "digits_text (str_nat (n div 10) @ [digit_char (n mod 10)])
        (10 * (n div 10) + n mod 10)"
      using "1.IH" [OF False] m by (rule digits_text.more)
    ultimately show ?thesis by simp
  qed
qed

lemma int_literal_decimal: "int_literal (decimal v) v"
proof (cases "v < 0")
  case True
  have "int_literal (CHR ''-'' # str_nat (nat (- v))) (- int (nat (- v)))"
    using str_nat_digits_text by (rule int_literal.minus)
  then show ?thesis using True by (simp add: decimal_def)
next
  case False
  have "int_literal (str_nat (nat v)) (int (nat v))"
    using str_nat_digits_text by (rule int_literal.plain)
  then show ?thesis using False by (simp add: decimal_def)
qed

lemma str_nat_bound: "n < 10 ^ length (str_nat n)"
proof (induction n rule: str_nat.induct)
  case (1 n)
  show ?case
  proof (cases "n < 10")
    case True
    then show ?thesis by (simp add: str_nat.simps)
  next
    case False
    have "length (str_nat n) = Suc (length (str_nat (n div 10)))"
      using False by (subst str_nat.simps) simp
    moreover have "n div 10 < 10 ^ length (str_nat (n div 10))" using "1.IH" [OF False] .
    ultimately show ?thesis by simp
  qed
qed

lemma str_nat_short: "n < 10 ^ k \<Longrightarrow> 0 < k \<Longrightarrow> length (str_nat n) \<le> k"
proof (induction n arbitrary: k rule: str_nat.induct)
  case (1 n)
  show ?case
  proof (cases "n < 10")
    case True
    then show ?thesis using "1.prems" by (simp add: str_nat.simps)
  next
    case False
    obtain j where j: "k = Suc j" using "1.prems"(2) by (cases k) auto
    have "0 < j"
    proof (rule ccontr)
      assume "\<not> 0 < j"
      then show False using j "1.prems"(1) False by simp
    qed
    moreover have "n div 10 < 10 ^ j" using "1.prems"(1) j by simp
    ultimately have "length (str_nat (n div 10)) \<le> j" using "1.IH" [OF False] by blast
    moreover have "length (str_nat n) = Suc (length (str_nat (n div 10)))"
      using False by (subst str_nat.simps) simp
    ultimately show ?thesis using j by simp
  qed
qed

lemma str_nat_length_le: "0 < k \<Longrightarrow> length (str_nat n) \<le> k \<longleftrightarrow> n < 10 ^ k"
proof
  assume "0 < k" "length (str_nat n) \<le> k"
  then have "(10::nat) ^ length (str_nat n) \<le> 10 ^ k" by (intro power_increasing) simp_all
  then show "n < 10 ^ k" using str_nat_bound [of n] by (rule less_le_trans [rotated])
next
  assume "0 < k" "n < 10 ^ k"
  then show "length (str_nat n) \<le> k" using str_nat_short by blast
qed

subsection \<open>The worker's computation\<close>

lemma over_limit_valid:
  assumes "lim = 0 \<or> 640 \<le> lim" and "digits \<le> len"
  shows "over_limit lim len digits \<longleftrightarrow> 0 < lim \<and> lim < digits"
  using assms by (auto simp: over_limit_def)

lemma py_str_Inr_iff:
  assumes "lim = 0 \<or> 640 \<le> lim"
  shows "py_str lim v = Inr r \<longleftrightarrow> r = decimal v \<and> (lim = 0 \<or> \<bar>v\<bar> < 10 ^ lim)"
proof -
  let ?d = "length (str_nat (nat \<bar>v\<bar>))"
  have "?d \<le> length (decimal v)" by (simp add: decimal_def abs_if)
  with assms have o: "over_limit lim (length (decimal v)) ?d \<longleftrightarrow> 0 < lim \<and> lim < ?d"
    by (rule over_limit_valid)
  have "0 < lim \<Longrightarrow> ?d \<le> lim \<longleftrightarrow> nat \<bar>v\<bar> < 10 ^ lim" by (rule str_nat_length_le)
  moreover have "nat \<bar>v\<bar> < 10 ^ lim \<longleftrightarrow> \<bar>v\<bar> < 10 ^ lim"
    by (simp add: nat_less_iff)
  ultimately have "\<not> (0 < lim \<and> lim < ?d) \<longleftrightarrow> lim = 0 \<or> \<bar>v\<bar> < 10 ^ lim"
    by (cases "lim = 0") (auto simp: not_less)
  then show ?thesis using o by (auto simp: py_str_def)
qed

lemma py_str_Inl: "py_str lim v = Inl e \<Longrightarrow> \<exists>m. e = ValueError m"
  by (auto simp: py_str_def split: if_splits)

lemma parse_numbers_Inr_iff:
  "parse_numbers lim xs = Inr ns \<longleftrightarrow>
     list_all2 (\<lambda>x n. py_int lim (py_strip x) = Inr n) xs ns"
proof (induction xs arbitrary: ns)
  case Nil
  then show ?case by auto
next
  case (Cons x xs)
  show ?case
  proof (cases "py_int lim (py_strip x)")
    case (Inl e)
    then show ?thesis by (auto simp: list_all2_Cons1)
  next
    case (Inr n)
    show ?thesis
    proof (cases "parse_numbers lim xs")
      case (Inl e)
      then have "\<not> list_all2 (\<lambda>x n. py_int lim (py_strip x) = Inr n) xs ms" for ms
        using Cons.IH [of ms] by simp
      then show ?thesis using Inl Inr by (auto simp: list_all2_Cons1)
    next
      case r: (Inr ms)
      then have "list_all2 (\<lambda>x n. py_int lim (py_strip x) = Inr n) xs ks \<longleftrightarrow> ks = ms" for ks
        using Cons.IH [of ks] by auto
      then show ?thesis using r Inr by (auto simp: list_all2_Cons1)
    qed
  qed
qed

lemma parse_numbers_Inl: "parse_numbers lim xs = Inl e \<Longrightarrow> \<exists>m. e = ValueError m"
proof (induction xs)
  case Nil
  then show ?case by simp
next
  case (Cons x xs)
  show ?case
  proof (cases "py_int lim (py_strip x)")
    case (Inl e')
    then have "e = e'" using Cons.prems by simp
    then show ?thesis using Inl py_int_Inl by blast
  next
    case (Inr n)
    then have "parse_numbers lim xs = Inl e"
      using Cons.prems by (simp split: sum.splits)
    then show ?thesis by (rule Cons.IH)
  qed
qed

lemma process_task_body_Inl: "process_task_body lim task_data = Inl e \<Longrightarrow> \<exists>m. e = ValueError m"
  unfolding process_task_body_def
  using parse_numbers_Inl py_str_Inl by (fastforce split: sum.splits)

lemma process_task_cases:
  "(\<exists>r. process_task_body lim task_data = Inr r \<and> process_task lim str_e task_data = Inr r)
   \<or> (\<exists>m. process_task_body lim task_data = Inl (ValueError m)
          \<and> process_task lim str_e task_data = Inr (''ERROR: '' @ str_e (ValueError m)))"
proof (cases "process_task_body lim task_data")
  case (Inl e)
  then obtain m where "e = ValueError m" using process_task_body_Inl by blast
  then show ?thesis using Inl by (simp add: process_task_def)
next
  case (Inr r)
  then show ?thesis by (simp add: process_task_def)
qed

lemma process_task_Inr: "\<exists>r. process_task lim str_e task_data = Inr r"
  using process_task_cases [of lim task_data str_e] by blast

lemma padded_literal_no_comma: "padded_literal p v \<Longrightarrow> CHR '','' \<notin> set p"
proof -
  assume "padded_literal p v"
  then obtain l m r where s: "p = l @ m @ r" "blank l" "blank r" "int_literal m v"
    unfolding padded_literal_def by blast
  have "\<not> is_space CHR '',''" by (simp add: is_space_def)
  then have "CHR '','' \<notin> set l" "CHR '','' \<notin> set r"
    using s(2,3) by (auto simp: blank_iff)
  then show ?thesis using s(1) int_literal_shape [OF s(4)] by simp
qed

lemma part_accepted_iff:
  assumes "lim = 0 \<or> 640 \<le> lim"
  shows "py_int lim (py_strip x) = Inr v \<longleftrightarrow> padded_literal x v \<and> (lim = 0 \<or> digit_count x \<le> lim)"
  using over_limit_valid [OF assms, of "digit_count x" "digit_count x"]
  by (auto simp: py_int_of_part)

lemma sum_of_literals:
  assumes v: "lim = 0 \<or> 640 \<le> lim"
    and "parts \<noteq> []" "list_all2 padded_literal parts ns" "within_limit lim parts ns"
  shows "process_task lim str_e (join_with CHR '','' parts) = Inr (decimal (sum_list ns))"
proof -
  have "\<forall>p\<in>set parts. CHR '','' \<notin> set p"
    using assms(3) padded_literal_no_comma by (fastforce simp: list_all2_conv_all_nth in_set_conv_nth)
  then have s: "py_split CHR '','' (join_with CHR '','' parts) = parts"
    using assms(2) by (intro split_join)
  have "list_all2 (\<lambda>x n. py_int lim (py_strip x) = Inr n) parts ns"
    using assms(3,4)
    by (auto simp: list_all2_conv_all_nth part_accepted_iff [OF v] within_limit_def)
  then have p: "parse_numbers lim parts = Inr ns" by (simp add: parse_numbers_Inr_iff)
  have "py_str lim (sum_list ns) = Inr (decimal (sum_list ns))"
    using assms(4) by (auto simp: py_str_Inr_iff [OF v] within_limit_def)
  then show ?thesis using s p by (simp add: process_task_def process_task_body_def)
qed

lemma error_otherwise:
  assumes v: "lim = 0 \<or> 640 \<le> lim"
    and n: "\<forall>ps vs. \<not> (ps \<noteq> [] \<and> task_data = join_with CHR '','' ps
                      \<and> list_all2 padded_literal ps vs \<and> within_limit lim ps vs)"
  shows "\<exists>m. process_task lim str_e task_data = Inr (''ERROR: '' @ m)"
proof (rule ccontr)
  assume c: "\<not> (\<exists>m. process_task lim str_e task_data = Inr (''ERROR: '' @ m))"
  then obtain r where "process_task_body lim task_data = Inr r"
    using process_task_cases [of lim task_data str_e] by blast
  then obtain ns where p: "parse_numbers lim (py_split CHR '','' task_data) = Inr ns"
      and s: "py_str lim (sum_list ns) = Inr r"
    by (auto simp: process_task_body_def split: sum.splits)
  let ?ps = "py_split CHR '','' task_data"
  have a: "list_all2 (\<lambda>x n. padded_literal x n \<and> (lim = 0 \<or> digit_count x \<le> lim)) ?ps ns"
    using p by (simp add: parse_numbers_Inr_iff part_accepted_iff [OF v])
  then have 1: "list_all2 padded_literal ?ps ns"
    by (rule list_all2_mono) simp
  have 2: "lim = 0 \<or> (\<forall>p\<in>set ?ps. digit_count p \<le> lim)"
    using a by (auto simp: list_all2_conv_all_nth in_set_conv_nth)
  have 3: "lim = 0 \<or> \<bar>sum_list ns\<bar> < 10 ^ lim"
    using s by (simp add: py_str_Inr_iff [OF v])
  have "within_limit lim ?ps ns" using 2 3 by (auto simp: within_limit_def)
  moreover have "?ps \<noteq> []" by (rule py_split_nonempty)
  moreover have "task_data = join_with CHR '','' ?ps" by (simp add: join_split)
  ultimately show False using n 1 by blast
qed

lemma decode3_nonempty: "decode3 tag data = Some r \<Longrightarrow> data \<noteq> []"
  by (auto simp: decode3_def py_strip_def py_lstrip_def py_rstrip_def numeral_2_eq_2)

lemma worker_replies:
  assumes "decode3 ''ASSIGN_TASK'' data = Some (task_id, td)"
  shows "\<exists>r. worker_turn lim str_e data
              = Reply (''TASK_RESULT|'' @ task_id @ ''|'' @ r @ ''\<newline>'')"
proof -
  have "data \<noteq> []" using assms by (rule decode3_nonempty)
  moreover obtain r where "process_task lim str_e td = Inr r"
    using process_task_Inr by blast
  ultimately show ?thesis using assms by (simp add: worker_turn_def)
qed

text \<open>
  Claim C10, as the code has it. \<open>process_task\<close> returns for every text and every
  setting of the interpreter's digit limit; it never raises. Under an admissible limit
  (none, or at least 640): when the text is a comma-separated list of literals, each with
  any whitespace around it, and the parts and their sum are within the limit, the result
  is the decimal text of the sum; for every other text the result starts with
  \<open>ERROR: \<close>. The decimal text of a number is a literal of that number. So for every
  well-formed \<open>ASSIGN_TASK\<close> the worker's turn ends in sending a \<open>TASK_RESULT\<close> for the
  same id.
\<close>

theorem process_task_total:
  "(\<exists>r. process_task lim str_e task_data = Inr r)
   \<and> (lim = 0 \<or> 640 \<le> lim \<longrightarrow>
        (parts \<noteq> [] \<and> list_all2 padded_literal parts ns \<and> within_limit lim parts ns \<longrightarrow>
           process_task lim str_e (join_with CHR '','' parts) = Inr (decimal (sum_list ns)))
        \<and> ((\<forall>ps vs. \<not> (ps \<noteq> [] \<and> task_data = join_with CHR '','' ps
                        \<and> list_all2 padded_literal ps vs \<and> within_limit lim ps vs)) \<longrightarrow>
           (\<exists>m. process_task lim str_e task_data = Inr (''ERROR: '' @ m))))
   \<and> int_literal (decimal v) v
   \<and> (\<forall>task_id td. decode3 ''ASSIGN_TASK'' data = Some (task_id, td) \<longrightarrow>
        (\<exists>r. worker_turn lim str_e data
                = Reply (''TASK_RESULT|'' @ task_id @ ''|'' @ r @ ''\<newline>'')))"
proof (intro conjI impI allI)
  show "\<exists>r. process_task lim str_e task_data = Inr r" by (rule process_task_Inr)
  show "int_literal (decimal v) v" by (rule int_literal_decimal)
  show "\<exists>r. worker_turn lim str_e data
          = Reply (''TASK_RESULT|'' @ task_id @ ''|'' @ r @ ''\<newline>'')"
    if "decode3 ''ASSIGN_TASK'' data = Some (task_id, td)" for task_id td
    using that by (rule worker_replies)
  assume v: "lim = 0 \<or> 640 \<le> lim"
  show "process_task lim str_e (join_with CHR '','' parts) = Inr (decimal (sum_list ns))"
    if "parts \<noteq> [] \<and> list_all2 padded_literal parts ns \<and> within_limit lim parts ns"
    using v that by (intro sum_of_literals) simp_all
  show "\<exists>m. process_task lim str_e task_data = Inr (''ERROR: '' @ m)"
    if "\<forall>ps vs. \<not> (ps \<noteq> [] \<and> task_data = join_with CHR '','' ps
                      \<and> list_all2 padded_literal ps vs \<and> within_limit lim ps vs)"
    using v that by (rule error_otherwise)
qed

subsection \<open>The worker's computation on examples\<close>

lemma digit_literal: "d < 10 \<Longrightarrow> int_literal [digit_char d] (int d)"
  by (intro int_literal.plain digits_text.one)

lemma padded_literalI:
  "blank l \<Longrightarrow> int_literal m v \<Longrightarrow> blank r \<Longrightarrow> padded_literal (l @ m @ r) v"
  unfolding padded_literal_def by blast

lemma small_part:
  assumes "padded_literal x v" "digit_count x \<le> 640"
  shows "py_int lim (py_strip x) = Inr v"
  using assms by (simp add: py_int_of_part over_limit_def)

lemma small_str:
  assumes "length (decimal v) \<le> 640"
  shows "py_str lim v = Inr (decimal v)"
  using assms by (simp add: py_str_def over_limit_def)

lemma process_task_example: "process_task lim str_e ''1,2,3,4,5'' = Inr ''15''"
proof -
  have s: "py_split CHR '','' ''1,2,3,4,5'' = [''1'', ''2'', ''3'', ''4'', ''5'']"
    by code_simp
  have p: "py_int lim (py_strip [digit_char d]) = Inr (int d)" if "d < 10" for d
  proof -
    have "padded_literal ([] @ [digit_char d] @ []) (int d)"
      using that by (intro padded_literalI digit_literal) (simp_all add: blank_def)
    moreover have "digit_count [digit_char d] \<le> 640" by (simp add: digit_count_def)
    ultimately show ?thesis using small_part by simp
  qed
  have "py_int lim (py_strip ''1'') = Inr 1" "py_int lim (py_strip ''2'') = Inr 2"
    "py_int lim (py_strip ''3'') = Inr 3" "py_int lim (py_strip ''4'') = Inr 4"
    "py_int lim (py_strip ''5'') = Inr 5"
    using p [of 1] p [of 2] p [of 3] p [of 4] p [of 5] by (simp_all add: digit_char_def)
  then have n: "parse_numbers lim [''1'', ''2'', ''3'', ''4'', ''5''] = Inr [1, 2, 3, 4, 5]"
    by simp
  have d: "decimal 15 = ''15''" by code_simp
  then have "py_str lim 15 = Inr ''15''" using small_str [of 15 lim] by simp
  then show ?thesis using s n by (simp add: process_task_def process_task_body_def)
qed

lemma digits_text_power: "digits_text (CHR ''1'' # replicate k CHR ''0'') (10 ^ k)"
proof (induction k)
  case 0
  have "digits_text [digit_char 1] 1" by (rule digits_text.one) simp
  then show ?case by (simp add: digit_char_def)
next
  case (Suc k)
  have "digits_text ((CHR ''1'' # replicate k CHR ''0'') @ [digit_char 0]) (10 * 10 ^ k + 0)"
    using Suc by (rule digits_text.more) simp
  then show ?case by (simp add: digit_char_def replicate_append_same)
qed

lemma digit_count_power: "digit_count (CHR ''1'' # replicate k CHR ''0'') = Suc k"
  by (simp add: digit_count_def)

lemma padded_parts_split:
  assumes "ps \<noteq> []" "list_all2 padded_literal ps vs"
  shows "py_split CHR '','' (join_with CHR '','' ps) = ps"
proof -
  have "\<forall>p\<in>set ps. CHR '','' \<notin> set p"
    using assms(2) padded_literal_no_comma
    by (fastforce simp: list_all2_conv_all_nth in_set_conv_nth)
  then show ?thesis using assms(1) by (intro split_join)
qed

lemma empty_not_literal: "\<not> padded_literal [] v"
  using int_literal_shape by (auto simp: padded_literal_def)

lemma padded_task_parts:
  "list_all2 padded_literal
     [[CHR '' ''] @ [digit_char 1] @ [],
      [CHR 0x09] @ (CHR ''-'' # ([digit_char 2] @ [CHR ''_'', digit_char 0])) @ [CHR '' ''],
      [] @ (CHR ''+'' # [digit_char 3]) @ [CHR ''\<newline>'']]
     [int 1, - int (10 * 2 + 0), int 3]"
proof -
  have b: "blank [CHR '' '']" "blank [CHR 0x09]" "blank [CHR ''\<newline>'']" "blank []"
    by (simp_all add: blank_def whitespace_def)
  have l1: "padded_literal ([CHR '' ''] @ [digit_char 1] @ []) (int 1)"
    using b(1,4) by (intro padded_literalI digit_literal) simp_all
  have "digits_text [digit_char 2] 2" by (rule digits_text.one) simp
  then have "digits_text ([digit_char 2] @ [CHR ''_'', digit_char 0]) (10 * 2 + 0)"
    by (rule digits_text.under) simp
  then have "int_literal (CHR ''-'' # ([digit_char 2] @ [CHR ''_'', digit_char 0])) (- int (10 * 2 + 0))"
    by (rule int_literal.minus)
  then have l2: "padded_literal
      ([CHR 0x09] @ (CHR ''-'' # ([digit_char 2] @ [CHR ''_'', digit_char 0])) @ [CHR '' ''])
      (- int (10 * 2 + 0))"
    using b(1,2) by (intro padded_literalI)
  have "digits_text [digit_char 3] 3" by (rule digits_text.one) simp
  then have "int_literal (CHR ''+'' # [digit_char 3]) (int 3)"
    by (rule int_literal.plus)
  then have l3: "padded_literal ([] @ (CHR ''+'' # [digit_char 3]) @ [CHR ''\<newline>'']) (int 3)"
    using b(3,4) by (intro padded_literalI)
  show ?thesis
    by (intro list.rel_intros l1 l2 l3)
qed

text \<open>
  The theorem under the default limit of 4300 digits: on a task whose literals carry
  whitespace, a sign and an underscore, on a list with an empty part, and on an
  assignment.
\<close>

theorem process_task_total_witness:
  "process_task 4300 (\<lambda>e. ''bad'') padded_task = Inr ''-16''
   \<and> (\<exists>m. process_task 4300 (\<lambda>e. ''bad'') ''1,,2'' = Inr (''ERROR: '' @ m))
   \<and> (\<exists>r. worker_turn 4300 (\<lambda>e. ''bad'') ''ASSIGN_TASK|t1|7,8\<newline>''
            = Reply (''TASK_RESULT|'' @ ''t1'' @ ''|'' @ r @ ''\<newline>''))"
proof -
  let ?parts = "[[CHR '' ''] @ [digit_char 1] @ [],
                 [CHR 0x09] @ (CHR ''-'' # ([digit_char 2] @ [CHR ''_'', digit_char 0])) @ [CHR '' ''],
                 [] @ (CHR ''+'' # [digit_char 3]) @ [CHR ''\<newline>'']]"
  let ?ns = "[int 1, - int (10 * 2 + 0), int 3]"
  note t = process_task_total [of 4300 "\<lambda>e. ''bad''" "''1,,2''" ?parts ?ns 0
      "''ASSIGN_TASK|t1|7,8\<newline>''"]
  have v: "(4300::nat) = 0 \<or> 640 \<le> (4300::nat)" by simp
  have a: "?parts \<noteq> [] \<and> list_all2 padded_literal ?parts ?ns"
    using padded_task_parts by blast
  have "\<bar>sum_list ?ns\<bar> < (10::int) ^ 2" by simp
  also have "(10::int) ^ 2 \<le> 10 ^ 4300" by (rule power_increasing) simp_all
  finally have s4300: "\<bar>sum_list ?ns\<bar> < (10::int) ^ 4300" .
  have "\<forall>p\<in>set ?parts. digit_count p \<le> 4300"
    by (simp add: digit_count_def digit_char_def)
  then have w: "within_limit 4300 ?parts ?ns"
    unfolding within_limit_def using s4300 by blast
  have j: "join_with CHR '','' ?parts = padded_task"
    by (simp add: padded_task_def digit_char_def)
  have d: "decimal (sum_list ?ns) = ''-16''" by code_simp
  note tv = t [THEN conjunct2, THEN conjunct1, THEN mp, OF v]
  have "process_task 4300 (\<lambda>e. ''bad'') (join_with CHR '','' ?parts)
      = Inr (decimal (sum_list ?ns))"
    using a w by (intro tv [THEN conjunct1, THEN mp] conjI) blast+
  then have 1: "process_task 4300 (\<lambda>e. ''bad'') padded_task = Inr ''-16''"
    unfolding j d .
  have s: "py_split CHR '','' ''1,,2'' = [''1'', [], ''2'']" by code_simp
  have n: "\<not> (ps \<noteq> [] \<and> ''1,,2'' = join_with CHR '','' ps
          \<and> list_all2 padded_literal ps vs \<and> within_limit 4300 ps vs)" for ps vs
  proof
    assume h: "ps \<noteq> [] \<and> ''1,,2'' = join_with CHR '','' ps
          \<and> list_all2 padded_literal ps vs \<and> within_limit 4300 ps vs"
    then have "py_split CHR '','' (join_with CHR '','' ps) = ps"
      using padded_parts_split by blast
    then have "ps = [''1'', [], ''2'']" using h s by (elim conjE) (simp only:)
    then have "list_all2 padded_literal [''1'', [], ''2''] vs" using h by blast
    then obtain x where "padded_literal [] x"
      by (auto simp only: list_all2_Cons1)
    then show False using empty_not_literal by blast
  qed
  have 2: "\<exists>m. process_task 4300 (\<lambda>e. ''bad'') ''1,,2'' = Inr (''ERROR: '' @ m)"
    using n by (intro tv [THEN conjunct2, THEN mp]) blast
  have "decode3 ''ASSIGN_TASK'' ''ASSIGN_TASK|t1|7,8\<newline>'' = Some (''t1'', ''7,8'')"
    by code_simp
  moreover note t [THEN conjunct2, THEN conjunct2, THEN conjunct2]
  ultimately have 3: "\<exists>r. worker_turn 4300 (\<lambda>e. ''bad'') ''ASSIGN_TASK|t1|7,8\<newline>''
            = Reply (''TASK_RESULT|'' @ ''t1'' @ ''|'' @ r @ ''\<newline>'')"
    by blast
  show ?thesis using 1 2 3 by (intro conjI)
qed

text \<open>
  Claim C10 as stated fails under the default limit: the literal of 4301 digits is an
  integer literal, and the answer is an error text, not its decimal text.
\<close>

theorem digit_limit_counterexample:
  "int_literal long_literal (10 ^ 4300)
   \<and> process_task 4300 (\<lambda>e. ''over'') long_literal = Inr ''ERROR: over''"
proof -
  have "int_literal long_literal (int (10 ^ 4300))"
    unfolding long_literal_def by (intro int_literal.plain digits_text_power)
  then have 1: "int_literal long_literal (10 ^ 4300)"
    by (simp only: of_nat_power of_nat_numeral)
  have c: "CHR '','' \<notin> set long_literal" by (simp add: long_literal_def)
  then have s: "py_split CHR '','' long_literal = [long_literal]"
    by (simp add: py_split_none split_at_none)
  have "digit_count long_literal = Suc 4300"
    unfolding long_literal_def by (rule digit_count_power)
  then have "over_limit 4300 (digit_count long_literal) (digit_count long_literal)"
    by (simp add: over_limit_def)
  then have "py_int 4300 (py_strip long_literal) \<noteq> Inr v" for v
    by (simp add: py_int_of_part)
  then obtain e where e: "py_int 4300 (py_strip long_literal) = Inl e"
    by (cases "py_int 4300 (py_strip long_literal)") auto
  then obtain m where "e = ValueError m" using py_int_Inl by blast
  then have "process_task_body 4300 long_literal = Inl (ValueError m)"
    using e s by (simp add: process_task_body_def)
  then have 2: "process_task 4300 (\<lambda>e. ''over'') long_literal = Inr ''ERROR: over''"
    by (simp add: process_task_def)
  show ?thesis using 1 2 by blast
qed

subsection \<open>Registration and dispatch, one step\<close>

lemma py_split_two:
  assumes "sep \<notin> set a" "sep \<notin> set b"
  shows "py_split sep (a @ sep # b) = [a, b]"
proof -
  let ?s = "a @ sep # b"
  have "py_split sep ?s = py_split_n sep (Suc (Suc (length ?s))) ?s"
    by (rule py_split_unbounded [symmetric]) simp
  also have "\<dots> = [a, b]"
    using assms by (simp add: split_at_append split_at_none)
  finally show ?thesis .
qed

lemma py_rstrip_subset: "set (py_rstrip s) \<subseteq> set s"
  unfolding py_rstrip_def using set_dropWhileD by fastforce

lemma register_line:
  assumes "CHR ''|'' \<notin> set wid"
  shows "py_split CHR ''|'' (py_strip (''REGISTER|'' @ wid @ ''\<newline>''))
         = [''REGISTER'', py_rstrip wid]"
proof -
  have l: "py_lstrip (''REGISTER|'' @ wid @ ''\<newline>'') = ''REGISTER|'' @ wid @ ''\<newline>''"
    by (simp add: py_lstrip_def is_space_def)
  have "py_rstrip (''REGISTER'' @ CHR ''|'' # wid @ ''\<newline>'')
      = ''REGISTER'' @ CHR ''|'' # py_rstrip wid"
    using bar_not_space by (rule py_rstrip_line)
  then have "py_strip (''REGISTER|'' @ wid @ ''\<newline>'')
      = ''REGISTER'' @ CHR ''|'' # py_rstrip wid"
    using l by (simp add: py_strip_def)
  moreover have "CHR ''|'' \<notin> set (py_rstrip wid)"
    using assms py_rstrip_subset by blast
  then have "py_split CHR ''|'' (''REGISTER'' @ CHR ''|'' # py_rstrip wid)
      = [''REGISTER'', py_rstrip wid]"
    by (intro py_split_two) simp_all
  ultimately show ?thesis by simp
qed

lemma handle_worker_register_line:
  assumes "CHR ''|'' \<notin> set wid" and "healthy st s"
  shows "handle_worker_register s (''REGISTER|'' @ wid @ ''\<newline>'') st
         = (Some (py_rstrip wid),
            st\<lparr>sent := sent st @ [(s, ''ACK|'' @ py_rstrip wid @ ''\<newline>'')],
               workers := workers st @ [(s, py_rstrip wid)]\<rparr>)"
proof -
  have "sock_send s (''ACK|'' @ py_rstrip wid @ ''\<newline>'') st
      = (None, st\<lparr>sent := sent st @ [(s, ''ACK|'' @ py_rstrip wid @ ''\<newline>'')]\<rparr>)"
    using assms(2) by (simp add: sock_send_def healthy_def)
  then show ?thesis
    unfolding handle_worker_register_def register_line [OF assms(1)]
    by (simp add: workers_put_def)
qed

lemma clean_id_rstrip: "clean_id wid \<Longrightarrow> py_rstrip wid = wid"
  by (intro py_rstrip_id) (simp add: clean_id_def)

lemma handle_worker_register_ok:
  assumes "clean_id wid" and "healthy st s"
  shows "handle_worker_register s (''REGISTER|'' @ wid @ ''\<newline>'') st
         = (Some wid, st\<lparr>sent := sent st @ [(s, ''ACK|'' @ wid @ ''\<newline>'')],
                          workers := workers st @ [(s, wid)]\<rparr>)"
proof -
  have "CHR ''|'' \<notin> set wid" using assms(1) by (simp add: clean_id_def)
  then show ?thesis
    using handle_worker_register_line [OF _ assms(2), of wid] clean_id_rstrip [OF assms(1)]
    by simp
qed

lemma handle_worker_register_reject:
  assumes "\<not> (\<exists>wid. py_split CHR ''|'' (py_strip data) = [''REGISTER'', wid])"
  shows "handle_worker_register s data st = (None, sock_close s st)"
proof (cases "py_split CHR ''|'' (py_strip data)")
  case Nil
  then show ?thesis by (simp add: handle_worker_register_def)
next
  case c1: (Cons t r1)
  show ?thesis
  proof (cases r1)
    case Nil
    then show ?thesis using c1 by (simp add: handle_worker_register_def)
  next
    case c2: (Cons w r2)
    show ?thesis
    proof (cases r2)
      case Nil
      then have "t \<noteq> ''REGISTER''" using assms c1 c2 by simp
      then show ?thesis using c1 c2 Nil by (simp add: handle_worker_register_def)
    next
      case (Cons x r3)
      then show ?thesis using c1 c2 by (simp add: handle_worker_register_def)
    qed
  qed
qed

lemma assign_task_healthy:
  assumes "workers st = (s, wid) # rest" and "healthy st s"
  shows "assign_task_to_worker task_id task_data st
         = (None, st\<lparr>workers := rest,
                       sent := sent st @ [(s, ''ASSIGN_TASK|'' @ task_id @ ''|'' @ task_data @ ''\<newline>'')]\<rparr>)"
  using assms by (simp add: assign_task_to_worker_def workers_get_def sock_send_def healthy_def)

lemma assign_task_unhealthy:
  assumes "workers st = (s, wid) # rest" and "\<not> healthy st s"
  shows "assign_task_to_worker task_id task_data st = (Some OSError, st\<lparr>workers := rest\<rparr>)"
  using assms by (simp add: assign_task_to_worker_def workers_get_def sock_send_def healthy_def)

lemma assign_task_empty:
  assumes "workers st = []"
  shows "assign_task_to_worker task_id task_data st
         = (None, st\<lparr>timers := timers st @ [(1, task_id, task_data)]\<rparr>)"
  using assms by (simp add: assign_task_to_worker_def workers_get_def)

lemma assign_task_ledger:
  "task_to_client (snd (assign_task_to_worker task_id task_data st)) = task_to_client st"
  by (cases "workers st")
     (auto simp: assign_task_to_worker_def workers_get_def sock_send_def)

subsection \<open>Admission into the ledger\<close>

lemma handle_client_admit:
  assumes "decode3 ''TASK'' data = Some (task_id, task_data)"
  shows "handle_client c data st =
     (let st1 = st\<lparr>task_to_client := (task_to_client st)(task_id \<mapsto> c)\<rparr>
      in case assign_task_to_worker task_id task_data st1 of
           (None, st2) \<Rightarrow> (True, st2)
         | (Some e, st2) \<Rightarrow> (False, sock_close c st2))"
  using assms decode3_nonempty [OF assms] by (simp add: handle_client_def)

text \<open>
  Claim C1, as the code has it. Admitting a task stores \<open>task_id \<mapsto> client_socket\<close> in
  the ledger whatever the ledger held for that id before (\<open>self.task_to_client[task_id] =
  client_socket\<close>): an existing entry is replaced, never refused. Whether the session goes
  on and what is sent do not depend on the ledger's earlier content. The ledger is a
  dictionary, so it holds at most one entry for an id at any time.
\<close>

theorem admission_overwrites:
  assumes "decode3 ''TASK'' data = Some (task_id, task_data)"
  shows "task_to_client (snd (handle_client c data st)) = (task_to_client st)(task_id \<mapsto> c)
       \<and> fst (handle_client c data (st\<lparr>task_to_client := m\<rparr>)) = fst (handle_client c data st)
       \<and> sent (snd (handle_client c data (st\<lparr>task_to_client := m\<rparr>)))
           = sent (snd (handle_client c data st))"
proof -
  let ?st1 = "st\<lparr>task_to_client := (task_to_client st)(task_id \<mapsto> c)\<rparr>"
  have a: "task_to_client (snd (handle_client c data st)) = (task_to_client st)(task_id \<mapsto> c)"
    using assign_task_ledger [of task_id task_data ?st1]
    unfolding handle_client_admit [OF assms]
    by (cases "assign_task_to_worker task_id task_data ?st1")
       (auto simp: sock_close_def Let_def split: option.splits)
  have b: "fst (handle_client c data (st\<lparr>task_to_client := m\<rparr>)) = fst (handle_client c data st)
       \<and> sent (snd (handle_client c data (st\<lparr>task_to_client := m\<rparr>)))
           = sent (snd (handle_client c data st))"
    unfolding handle_client_admit [OF assms]
    by (cases "workers st")
       (auto simp: assign_task_to_worker_def workers_get_def sock_send_def sock_close_def Let_def)
  show ?thesis using a b by simp
qed

text \<open>
  The admission theorem at the duplicate submission.
\<close>

theorem admission_overwrites_witness:
  "task_to_client (snd (handle_client 8 ''TASK|t1|5\<newline>'' dup_state)) ''t1'' = Some 8"
proof -
  have d: "decode3 ''TASK'' ''TASK|t1|5\<newline>'' = Some (''t1'', ''5'')" by code_simp
  show ?thesis
    using admission_overwrites [OF d, of 8 dup_state] by simp
qed

text \<open>
  Claim C1 as stated fails: with \<open>t1\<close> pending for the client on socket 7, a second
  \<open>TASK|t1|5\<close> from the client on socket 8 is admitted and dispatched, and the entry of
  \<open>t1\<close> now names socket 8.
\<close>

theorem duplicate_id_counterexample:
  "task_to_client dup_state ''t1'' = Some 7
   \<and> fst (handle_client 8 ''TASK|t1|5\<newline>'' dup_state) = True
   \<and> task_to_client (snd (handle_client 8 ''TASK|t1|5\<newline>'' dup_state)) ''t1'' = Some 8
   \<and> sent (snd (handle_client 8 ''TASK|t1|5\<newline>'' dup_state))
       = [(1, ''ASSIGN_TASK|t1|5\<newline>'')]"
proof -
  have d: "decode3 ''TASK'' ''TASK|t1|5\<newline>'' = Some (''t1'', ''5'')" by code_simp
  show ?thesis
    unfolding handle_client_admit [OF d]
    by (simp add: dup_state_def lb_init_def assign_task_to_worker_def workers_get_def
        sock_send_def)
qed

subsection \<open>A send that fails during dispatch\<close>

lemma send_failure_ends_client_session:
  assumes "workers st = (s, wid) # rest" and "\<not> healthy st s"
    and d: "decode3 ''TASK'' data = Some (task_id, task_data)"
  shows "handle_client c data st
           = (False, sock_close c (st\<lparr>task_to_client := (task_to_client st)(task_id \<mapsto> c),
                                       workers := rest\<rparr>))"
proof -
  let ?st1 = "st\<lparr>task_to_client := (task_to_client st)(task_id \<mapsto> c)\<rparr>"
  have "workers ?st1 = (s, wid) # rest" "\<not> healthy ?st1 s"
    using assms(1,2) by (simp_all add: healthy_def)
  then have "assign_task_to_worker task_id task_data ?st1 = (Some OSError, ?st1\<lparr>workers := rest\<rparr>)"
    by (rule assign_task_unhealthy)
  then show ?thesis
    unfolding handle_client_admit [OF d] by simp
qed

text \<open>
  Claim C3, as the code has it. When the send to the acquired worker fails, the
  \<open>OSError\<close> leaves \<open>_assign_task_to_worker\<close> (only \<open>queue.Empty\<close> is caught there): the
  worker taken from the queue is not put back, nothing is sent, no timer is started, no
  other worker is tried.
\<close>

theorem send_failure_propagates:
  assumes "workers st = (s, wid) # rest" and "s \<in> closed_socks st \<union> broken_socks st"
  shows "assign_task_to_worker task_id task_data st = (Some OSError, st\<lparr>workers := rest\<rparr>)"
proof -
  have "\<not> healthy st s" using assms(2) by (simp add: healthy_def)
  with assms(1) show ?thesis by (rule assign_task_unhealthy)
qed

text \<open>
  The theorem with two idle workers, the first one unreachable.
\<close>

theorem send_failure_propagates_witness:
  "assign_task_to_worker ''t1'' ''5'' two_workers
     = (Some OSError, two_workers\<lparr>workers := [(2, ''w2'')]\<rparr>)"
proof -
  have w: "workers two_workers = (1, ''w1'') # [(2, ''w2'')]"
    by (simp add: two_workers_def lb_init_def)
  have b: "1 \<in> closed_socks two_workers \<union> broken_socks two_workers"
    by (simp add: two_workers_def lb_init_def)
  show ?thesis
    using send_failure_propagates [OF w b, of "''t1''" "''5''"] by simp
qed

text \<open>
  Claim C3 as stated fails: with a second, reachable worker idle in the pool, the
  dispatch of \<open>t1\<close> ends with the exception, and neither a message to that worker nor a
  retry timer exists afterwards.
\<close>

theorem no_retry_counterexample:
  "healthy two_workers 2
   \<and> fst (assign_task_to_worker ''t1'' ''5'' two_workers) = Some OSError
   \<and> sent (snd (assign_task_to_worker ''t1'' ''5'' two_workers)) = []
   \<and> workers (snd (assign_task_to_worker ''t1'' ''5'' two_workers)) = [(2, ''w2'')]
   \<and> timers (snd (assign_task_to_worker ''t1'' ''5'' two_workers)) = []"
  by (simp add: two_workers_def lb_init_def healthy_def assign_task_to_worker_def
      workers_get_def sock_send_def)

lemma send_result_unknown:
  assumes "task_to_client st task_id = None"
  shows "send_result_to_client task_id result_data st = st"
proof -
  have "(task_to_client st)(task_id := None) = task_to_client st"
    using assms by (simp add: fun_upd_idem)
  then show ?thesis using assms by (simp add: send_result_to_client_def)
qed

lemma send_result_removes:
  "task_to_client (send_result_to_client task_id result_data st) task_id = None"
  by (simp add: send_result_to_client_def sock_send_def Let_def split: option.splits)

subsection \<open>An empty pool; the registration handshake\<close>

text \<open>
  Claim C7. With no idle worker, \<open>workers.get(timeout=5)\<close> ends in \<open>queue.Empty\<close>, and
  \<open>_assign_task_to_worker\<close> returns normally after starting a timer of one second
  for the same task id and data: nothing is sent and nothing is lost. When that timer
  fires and the pool is still empty, the same timer is started again; when a reachable
  worker has arrived in between, the task is sent to it. (The time a call takes is not
  part of the model: the bound of the wait is the argument of \<open>workers_get\<close>.)
\<close>

theorem empty_pool_schedules_retry:
  assumes "workers st = []"
  shows "workers_get 5 st = (Inl QueueEmpty, st)
       \<and> assign_task_to_worker task_id task_data st
           = (None, st\<lparr>timers := timers st @ [(1, task_id, task_data)]\<rparr>)
       \<and> timer_fire (length (timers st)) (snd (assign_task_to_worker task_id task_data st))
           = snd (assign_task_to_worker task_id task_data st)
       \<and> (healthy st s \<longrightarrow>
            timer_fire (length (timers st))
              (workers_put (s, wid) (snd (assign_task_to_worker task_id task_data st)))
            = st\<lparr>sent := sent st @
                    [(s, ''ASSIGN_TASK|'' @ task_id @ ''|'' @ task_data @ ''\<newline>'')]\<rparr>)"
proof (intro conjI impI)
  let ?st1 = "st\<lparr>timers := timers st @ [(1, task_id, task_data)]\<rparr>"
  show "workers_get 5 st = (Inl QueueEmpty, st)"
    using assms by (simp add: workers_get_def)
  show a: "assign_task_to_worker task_id task_data st = (None, ?st1)"
    using assms by (rule assign_task_empty)
  have e: "assign_task_to_worker task_id task_data (?st1\<lparr>timers := timers st\<rparr>)
      = (None, ?st1)"
    using assign_task_empty [OF assms, of task_id task_data] by simp
  show "timer_fire (length (timers st)) (snd (assign_task_to_worker task_id task_data st))
      = snd (assign_task_to_worker task_id task_data st)"
    unfolding a using e by (simp add: timer_fire_def)
  assume h: "healthy st s"
  let ?st2 = "workers_put (s, wid) ?st1"
  have t: "timers ?st2 = timers st @ [(1, task_id, task_data)]"
    by (simp add: workers_put_def)
  let ?st3 = "?st2\<lparr>timers := timers st\<rparr>"
  have "workers ?st3 = (s, wid) # []" "healthy ?st3 s"
    using assms h by (simp_all add: workers_put_def healthy_def)
  then have "assign_task_to_worker task_id task_data ?st3
      = (None, ?st3\<lparr>workers := [],
           sent := sent ?st3 @ [(s, ''ASSIGN_TASK|'' @ task_id @ ''|'' @ task_data @ ''\<newline>'')]\<rparr>)"
    by (rule assign_task_healthy)
  then show "timer_fire (length (timers st))
              (workers_put (s, wid) (snd (assign_task_to_worker task_id task_data st)))
            = st\<lparr>sent := sent st @
                    [(s, ''ASSIGN_TASK|'' @ task_id @ ''|'' @ task_data @ ''\<newline>'')]\<rparr>"
    unfolding a using t assms by (simp add: timer_fire_def workers_put_def)
qed

text \<open>
  The theorem on the balancer as it starts, with worker \<open>w4\<close> arriving before the timer
  fires.
\<close>

theorem empty_pool_schedules_retry_witness:
  "assign_task_to_worker ''t1'' ''1,2'' lb_init
     = (None, lb_init\<lparr>timers := [(1, ''t1'', ''1,2'')]\<rparr>)
   \<and> timer_fire 0 (workers_put (4, ''w4'') (snd (assign_task_to_worker ''t1'' ''1,2'' lb_init)))
     = lb_init\<lparr>sent := [(4, ''ASSIGN_TASK|t1|1,2\<newline>'')]\<rparr>"
proof -
  have w: "workers lb_init = []" by (simp add: lb_init_def)
  have h: "healthy lb_init 4" by (simp add: healthy_def lb_init_def)
  have t: "timers lb_init = []" "sent lb_init = []" by (simp_all add: lb_init_def)
  note r = empty_pool_schedules_retry [OF w, of "''t1''" "''1,2''" 4 "''w4''"]
  have a: "assign_task_to_worker ''t1'' ''1,2'' lb_init
      = (None, lb_init\<lparr>timers := [(1, ''t1'', ''1,2'')]\<rparr>)"
    using r t by simp
  have b: "timer_fire 0 (workers_put (4, ''w4'') (snd (assign_task_to_worker ''t1'' ''1,2'' lb_init)))
      = lb_init\<lparr>sent := [(4, ''ASSIGN_TASK|t1|1,2\<newline>'')]\<rparr>"
  proof -
    from r h have "timer_fire (length (timers lb_init))
        (workers_put (4, ''w4'') (snd (assign_task_to_worker ''t1'' ''1,2'' lb_init)))
      = lb_init\<lparr>sent := sent lb_init @
          [(4, ''ASSIGN_TASK|'' @ ''t1'' @ ''|'' @ ''1,2'' @ ''\<newline>'')]\<rparr>"
      by blast
    then show ?thesis using t by simp
  qed
  show ?thesis using a b by blast
qed

text \<open>
  Claim C9. A first line \<open>REGISTER|worker_id\<close> on a socket that can be written to is
  answered with \<open>ACK|worker_id\<close> and puts the worker at the tail of the pool; the id is
  the field as \<open>strip\<close> leaves it, which is the field itself when it does not end in
  whitespace. Any first text that \<open>strip\<close> and \<open>split\<close> do not cut into exactly
  \<open>REGISTER\<close> and one more field ends the session: the socket is closed, nothing is sent
  and the pool is unchanged.
\<close>

theorem registration_handshake:
  "(CHR ''|'' \<notin> set wid \<and> healthy st s \<longrightarrow>
      handle_worker_register s (''REGISTER|'' @ wid @ ''\<newline>'') st
        = (Some (py_rstrip wid),
           st\<lparr>sent := sent st @ [(s, ''ACK|'' @ py_rstrip wid @ ''\<newline>'')],
              workers := workers st @ [(s, py_rstrip wid)]\<rparr>))
   \<and> (clean_id wid \<longrightarrow> py_rstrip wid = wid)
   \<and> ((\<forall>w. py_split CHR ''|'' (py_strip data) \<noteq> [''REGISTER'', w]) \<longrightarrow>
        handle_worker_register s data st = (None, sock_close s st)
        \<and> workers (snd (handle_worker_register s data st)) = workers st
        \<and> sent (snd (handle_worker_register s data st)) = sent st)"
proof (intro conjI impI)
  show "handle_worker_register s (''REGISTER|'' @ wid @ ''\<newline>'') st
        = (Some (py_rstrip wid),
           st\<lparr>sent := sent st @ [(s, ''ACK|'' @ py_rstrip wid @ ''\<newline>'')],
              workers := workers st @ [(s, py_rstrip wid)]\<rparr>)"
    if "CHR ''|'' \<notin> set wid \<and> healthy st s"
    using that handle_worker_register_line by blast
  show "py_rstrip wid = wid" if "clean_id wid"
    using that by (rule clean_id_rstrip)
  assume "\<forall>w. py_split CHR ''|'' (py_strip data) \<noteq> [''REGISTER'', w]"
  then have "\<not> (\<exists>w. py_split CHR ''|'' (py_strip data) = [''REGISTER'', w])" by blast
  then show r: "handle_worker_register s data st = (None, sock_close s st)"
    by (rule handle_worker_register_reject)
  show "workers (snd (handle_worker_register s data st)) = workers st"
    unfolding r by (simp add: sock_close_def)
  show "sent (snd (handle_worker_register s data st)) = sent st"
    unfolding r by (simp add: sock_close_def)
qed

text \<open>
  The theorem on a good registration, on a wrong tag and on a wrong number of fields.
\<close>

theorem registration_handshake_witness:
  "handle_worker_register 1 ''REGISTER|w1\<newline>'' lb_init
     = (Some ''w1'', lb_init\<lparr>sent := [(1, ''ACK|w1\<newline>'')], workers := [(1, ''w1'')]\<rparr>)
   \<and> handle_worker_register 1 ''HELLO|w1\<newline>'' lb_init = (None, sock_close 1 lb_init)
   \<and> handle_worker_register 1 ''REGISTER|w1|x\<newline>'' lb_init = (None, sock_close 1 lb_init)"
proof -
  have c: "CHR ''|'' \<notin> set ''w1'' \<and> healthy lb_init 1" "clean_id ''w1''"
    by (simp_all add: clean_id_def healthy_def lb_init_def is_space_def)
  have i: "sent lb_init = []" "workers lb_init = []" by (simp_all add: lb_init_def)
  have p1: "py_split CHR ''|'' (py_strip ''HELLO|w1\<newline>'') = [''HELLO'', ''w1'']"
    by code_simp
  have p2: "py_split CHR ''|'' (py_strip ''REGISTER|w1|x\<newline>'') = [''REGISTER'', ''w1'', ''x'']"
    by code_simp
  have n1: "\<forall>w. py_split CHR ''|'' (py_strip ''HELLO|w1\<newline>'') \<noteq> [''REGISTER'', w]"
    unfolding p1 by simp
  have n2: "\<forall>w. py_split CHR ''|'' (py_strip ''REGISTER|w1|x\<newline>'') \<noteq> [''REGISTER'', w]"
    unfolding p2 by simp
  note r1 = registration_handshake [of "''w1''" lb_init 1 "''HELLO|w1\<newline>''"]
  note r2 = registration_handshake [of "''w1''" lb_init 1 "''REGISTER|w1|x\<newline>''"]
  have k: "py_rstrip ''w1'' = ''w1''" using r1 c(2) by blast
  have a: "handle_worker_register 1 (''REGISTER|'' @ ''w1'' @ ''\<newline>'') lb_init
      = (Some (py_rstrip ''w1''),
         lb_init\<lparr>sent := sent lb_init @ [(1, ''ACK|'' @ py_rstrip ''w1'' @ ''\<newline>'')],
                  workers := workers lb_init @ [(1, py_rstrip ''w1'')]\<rparr>)"
    using r1 c(1) by blast
  have b1: "handle_worker_register 1 ''HELLO|w1\<newline>'' lb_init = (None, sock_close 1 lb_init)"
    using r1 n1 by blast
  have b2: "handle_worker_register 1 ''REGISTER|w1|x\<newline>'' lb_init = (None, sock_close 1 lb_init)"
    using r2 n2 by blast
  show ?thesis using a b1 b2 i unfolding k by simp
qed

subsection \<open>Rotation\<close>

lemma register_all_eq:
  "\<forall>w\<in>set ws. healthy st (fst w) \<and> clean_id (snd w) \<Longrightarrow>
   register_all ws st
     = st\<lparr>sent := sent st @ map (\<lambda>w. (fst w, ''ACK|'' @ snd w @ ''\<newline>'')) ws,
           workers := workers st @ ws\<rparr>"
proof (induction ws arbitrary: st)
  case Nil
  then show ?case by simp
next
  case (Cons w ws)
  let ?st1 = "st\<lparr>sent := sent st @ [(fst w, ''ACK|'' @ snd w @ ''\<newline>'')],
                   workers := workers st @ [(fst w, snd w)]\<rparr>"
  have r: "handle_worker_register (fst w) (''REGISTER|'' @ snd w @ ''\<newline>'') st
      = (Some (snd w), ?st1)"
    using Cons.prems by (intro handle_worker_register_ok) simp_all
  have "\<forall>v\<in>set ws. healthy ?st1 (fst v) \<and> clean_id (snd v)"
    using Cons.prems by (simp add: healthy_def)
  then have "register_all ws ?st1
      = ?st1\<lparr>sent := sent ?st1 @ map (\<lambda>w. (fst w, ''ACK|'' @ snd w @ ''\<newline>'')) ws,
             workers := workers ?st1 @ ws\<rparr>"
    by (rule Cons.IH)
  then show ?case using r by simp
qed

lemma dispatch_all_eq:
  "workers st = ws @ rest \<Longrightarrow> length ts = length ws \<Longrightarrow>
   \<forall>w\<in>set ws. healthy st (fst w) \<Longrightarrow>
   dispatch_all ts st
     = st\<lparr>workers := rest, sent := sent st @ map2 assignment ws ts\<rparr>"
proof (induction ts arbitrary: ws st)
  case Nil
  then show ?case by simp
next
  case (Cons t ts)
  then obtain w ws' where ws: "ws = w # ws'" by (cases ws) auto
  let ?st1 = "st\<lparr>workers := ws' @ rest,
      sent := sent st @ [(fst w, ''ASSIGN_TASK|'' @ fst t @ ''|'' @ snd t @ ''\<newline>'')]\<rparr>"
  have "workers st = (fst w, snd w) # (ws' @ rest)" "healthy st (fst w)"
    using Cons.prems ws by simp_all
  then have a: "assign_task_to_worker (fst t) (snd t) st = (None, ?st1)"
    by (rule assign_task_healthy)
  have "workers ?st1 = ws' @ rest" "length ts = length ws'"
    "\<forall>v\<in>set ws'. healthy ?st1 (fst v)"
    using Cons.prems ws by (simp_all add: healthy_def)
  then have "dispatch_all ts ?st1
      = ?st1\<lparr>workers := rest, sent := sent ?st1 @ map2 assignment ws' ts\<rparr>"
    by (rule Cons.IH)
  then show ?case using a ws by (simp add: assignment_def)
qed

lemma filter_distinct_one:
  "distinct xs \<Longrightarrow> x \<in> set xs \<Longrightarrow> length (filter (\<lambda>y. y = x) xs) = 1"
proof (induction xs)
  case Nil
  then show ?case by simp
next
  case (Cons a xs)
  show ?case
  proof (cases "a = x")
    case True
    then have "x \<notin> set xs" using Cons.prems by simp
    then have "filter (\<lambda>y. y = x) xs = []" by (auto simp: filter_empty_conv)
    then show ?thesis using True by simp
  next
    case False
    then show ?thesis using Cons by auto
  qed
qed

lemma map2_assignment_fst:
  "length ts = length ws \<Longrightarrow> map fst (map2 assignment ws ts) = map fst ws"
  by (induction ws ts rule: list_induct2') (simp_all add: assignment_def)

lemma each_gets_one:
  assumes "distinct (map fst ws)" "length ts = length ws" "w \<in> set ws"
  shows "length (filter (\<lambda>m. fst m = fst w) (map2 assignment ws ts)) = 1"
proof -
  have "length (filter (\<lambda>m. fst m = fst w) (map2 assignment ws ts))
      = length (filter (\<lambda>y. y = fst w) (map fst (map2 assignment ws ts)))"
    by (simp add: filter_map comp_def)
  also have "\<dots> = length (filter (\<lambda>y. y = fst w) (map fst ws))"
    using assms(2) by (simp only: map2_assignment_fst)
  also have "\<dots> = 1"
    using assms(1,3) by (intro filter_distinct_one) simp_all
  finally show ?thesis .
qed

text \<open>
  Claim C5. Workers register in the order \<open>ws\<close> with an empty pool, then as many tasks
  \<open>ts\<close> are dispatched with no result in between, all sockets being writable. The pool
  after the registrations is \<open>ws\<close>; the messages sent by the dispatches are, in order,
  the \<open>k\<close>-th task to the \<open>k\<close>-th registered worker; the pool is empty at the end; and
  when the workers' sockets are distinct each of them got exactly one message.
\<close>

theorem round_robin:
  assumes "workers st = []"
    and "\<forall>w\<in>set ws. healthy st (fst w) \<and> clean_id (snd w)"
    and "length ts = length ws"
  shows "workers (register_all ws st) = ws
       \<and> sent (dispatch_all ts (register_all ws st))
           = sent (register_all ws st) @ map2 assignment ws ts
       \<and> workers (dispatch_all ts (register_all ws st)) = []
       \<and> (distinct (map fst ws) \<longrightarrow>
            (\<forall>w\<in>set ws. length (filter (\<lambda>m. fst m = fst w) (map2 assignment ws ts)) = 1))"
proof -
  let ?st1 = "register_all ws st"
  have r: "?st1 = st\<lparr>sent := sent st @ map (\<lambda>w. (fst w, ''ACK|'' @ snd w @ ''\<newline>'')) ws,
                       workers := workers st @ ws\<rparr>"
    using assms(2) by (rule register_all_eq)
  then have w: "workers ?st1 = ws @ []" using assms(1) by simp
  have h: "\<forall>w\<in>set ws. healthy ?st1 (fst w)"
    using assms(2) unfolding r by (simp add: healthy_def)
  have d: "dispatch_all ts ?st1 = ?st1\<lparr>workers := [], sent := sent ?st1 @ map2 assignment ws ts\<rparr>"
    using w assms(3) h by (rule dispatch_all_eq)
  have "workers ?st1 = ws" using w by simp
  moreover have "sent (dispatch_all ts ?st1) = sent ?st1 @ map2 assignment ws ts"
    unfolding d by simp
  moreover have "workers (dispatch_all ts ?st1) = []" unfolding d by simp
  moreover have "distinct (map fst ws) \<longrightarrow>
      (\<forall>w\<in>set ws. length (filter (\<lambda>m. fst m = fst w) (map2 assignment ws ts)) = 1)"
    using each_gets_one assms(3) by blast
  ultimately show ?thesis by blast
qed

text \<open>
  The theorem with three workers and three tasks.
\<close>

theorem round_robin_witness:
  "sent (dispatch_all [(''t1'', ''1''), (''t2'', ''2''), (''t3'', ''3'')]
           (register_all [(5, ''a''), (3, ''b''), (4, ''c'')] lb_init))
     = [(5, ''ACK|a\<newline>''), (3, ''ACK|b\<newline>''), (4, ''ACK|c\<newline>''),
        (5, ''ASSIGN_TASK|t1|1\<newline>''), (3, ''ASSIGN_TASK|t2|2\<newline>''),
        (4, ''ASSIGN_TASK|t3|3\<newline>'')]"
proof -
  let ?ws = "[(5, ''a''), (3, ''b''), (4, ''c'')] :: (sock \<times> string) list"
  let ?ts = "[(''t1'', ''1''), (''t2'', ''2''), (''t3'', ''3'')]"
  have a: "workers lb_init = []" by (simp add: lb_init_def)
  have b: "\<forall>w\<in>set ?ws. healthy lb_init (fst w) \<and> clean_id (snd w)"
    by (simp add: healthy_def lb_init_def clean_id_def is_space_def)
  have c: "length ?ts = length ?ws" by simp
  have r: "sent (register_all ?ws lb_init)
      = [(5, ''ACK|a\<newline>''), (3, ''ACK|b\<newline>''), (4, ''ACK|c\<newline>'')]"
    using register_all_eq [OF b] by (simp add: lb_init_def)
  show ?thesis
    using round_robin [OF a b c] r by (simp add: assignment_def)
qed

subsection \<open>The scenario of the specification; a worker lost while idle\<close>

lemma scenario_registered_eq:
  "scenario_registered
     = lb_init\<lparr>sent := [(1, ''ACK|w1\<newline>'')], workers := [(1, ''w1'')]\<rparr>"
proof -
  have "clean_id ''w1''" "healthy lb_init 1"
    by (simp_all add: clean_id_def is_space_def healthy_def lb_init_def)
  then have "handle_worker_register 1 (''REGISTER|'' @ ''w1'' @ ''\<newline>'') lb_init
      = (Some ''w1'', lb_init\<lparr>sent := sent lb_init @ [(1, ''ACK|'' @ ''w1'' @ ''\<newline>'')],
                               workers := workers lb_init @ [(1, ''w1'')]\<rparr>)"
    by (rule handle_worker_register_ok)
  then show ?thesis by (simp add: scenario_registered_def lb_init_def)
qed

lemma scenario_assigned_eq:
  "scenario_assigned
     = lb_init\<lparr>sent := [(1, ''ACK|w1\<newline>''), (1, ''ASSIGN_TASK|t1|1,2,3,4,5\<newline>'')],
                task_to_client := [''t1'' \<mapsto> 2]\<rparr>"
proof -
  have d: "decode3 ''TASK'' ''TASK|t1|1,2,3,4,5\<newline>'' = Some (''t1'', ''1,2,3,4,5'')"
    by code_simp
  show ?thesis
    unfolding scenario_assigned_def handle_client_admit [OF d] scenario_registered_eq
    by (simp add: lb_init_def assign_task_to_worker_def workers_get_def sock_send_def)
qed

text \<open>
  Claim C4. In the scenario, the balancer sends \<open>ASSIGN_TASK|t1|1,2,3,4,5\<close> to the worker's
  socket, the worker's turn on that message answers \<open>TASK_RESULT|t1|15\<close>, and on that
  answer the balancer sends \<open>RESULT|t1|15\<close> to the client's socket, frees the worker and
  drops the ledger entry.
\<close>

theorem sum_scenario:
  "workers scenario_registered = [(1, ''w1'')]
   \<and> sent scenario_assigned
       = sent scenario_registered @ [(1, ''ASSIGN_TASK|t1|1,2,3,4,5\<newline>'')]
   \<and> worker_turn lim str_e ''ASSIGN_TASK|t1|1,2,3,4,5\<newline>'' = Reply ''TASK_RESULT|t1|15\<newline>''
   \<and> sent scenario_done = sent scenario_assigned @ [(2, ''RESULT|t1|15\<newline>'')]
   \<and> workers scenario_done = [(1, ''w1'')]
   \<and> task_to_client scenario_done ''t1'' = None"
proof -
  have d: "decode3 ''ASSIGN_TASK'' ''ASSIGN_TASK|t1|1,2,3,4,5\<newline>''
      = Some (''t1'', ''1,2,3,4,5'')"
    by code_simp
  have w: "worker_turn lim str_e ''ASSIGN_TASK|t1|1,2,3,4,5\<newline>''
      = Reply ''TASK_RESULT|t1|15\<newline>''"
    using d process_task_example by (simp add: worker_turn_def)
  have r: "decode3 ''TASK_RESULT'' ''TASK_RESULT|t1|15\<newline>'' = Some (''t1'', ''15'')"
    by code_simp
  have e: "scenario_done
      = lb_init\<lparr>sent := [(1, ''ACK|w1\<newline>''), (1, ''ASSIGN_TASK|t1|1,2,3,4,5\<newline>''),
                           (2, ''RESULT|t1|15\<newline>'')],
                 task_to_client := [''t1'' \<mapsto> 2](''t1'' := None),
                 workers := [(1, ''w1'')]\<rparr>"
    unfolding scenario_done_def scenario_assigned_eq
    using r by (simp add: handle_worker_result_def send_result_to_client_def sock_send_def
        workers_put_def lb_init_def)
  show ?thesis
    using w unfolding e scenario_assigned_eq scenario_registered_eq
    by (simp add: lb_init_def)
qed

text \<open>
  Claim C2, evaluated on the code: after the idle worker's connection has closed, the
  worker is still in the pool, the next \<open>workers.get\<close> returns it, and the next task
  of a client is neither assigned nor retried because the send on the closed socket
  raises; the client's session ends.
\<close>

theorem stale_worker_selected:
  "workers idle_worker_gone = [(1, ''w1'')]
   \<and> 1 \<in> closed_socks idle_worker_gone
   \<and> fst (workers_get 5 idle_worker_gone) = Inr (1, ''w1'')
   \<and> fst (handle_client 2 ''TASK|t1|1,2,3\<newline>'' idle_worker_gone) = False
   \<and> sent (snd (handle_client 2 ''TASK|t1|1,2,3\<newline>'' idle_worker_gone))
       = [(1, ''ACK|w1\<newline>'')]
   \<and> 2 \<in> closed_socks (snd (handle_client 2 ''TASK|t1|1,2,3\<newline>'' idle_worker_gone))"
proof -
  have g: "idle_worker_gone
      = lb_init\<lparr>sent := [(1, ''ACK|w1\<newline>'')], workers := [(1, ''w1'')],
                 closed_socks := {1}\<rparr>"
    unfolding idle_worker_gone_def scenario_registered_eq
    by (simp add: handle_worker_result_def sock_close_def lb_init_def)
  have d: "decode3 ''TASK'' ''TASK|t1|1,2,3\<newline>'' = Some (''t1'', ''1,2,3'')"
    by code_simp
  show ?thesis
    unfolding handle_client_admit [OF d] g
    by (simp add: lb_init_def assign_task_to_worker_def workers_get_def sock_send_def
        sock_close_def)
qed

lemma closing_keeps_pool:
  "workers (connection_lost s st) = workers st
   \<and> workers (snd (handle_worker_result s wid [] st)) = workers st"
  by (simp add: connection_lost_def handle_worker_result_def sock_close_def)

subsection \<open>Results over a run\<close>

lemma prefix_sep:
  "take (Suc (length a)) (b @ sep # rest) = a @ [sep] \<Longrightarrow> sep \<notin> set a \<Longrightarrow> sep \<notin> set b
   \<Longrightarrow> a = b"
proof (induction a arbitrary: b)
  case Nil
  then show ?case by (cases b) auto
next
  case (Cons x a)
  then show ?case by (cases b) auto
qed

lemma result_for_same_id:
  assumes "starts_with (''RESULT|'' @ task_id @ ''|'') (''RESULT|'' @ t @ ''|'' @ r @ ''\<newline>'')"
    and "CHR ''|'' \<notin> set task_id" and "CHR ''|'' \<notin> set t"
  shows "t = task_id"
proof -
  have "take (Suc (length task_id)) (t @ CHR ''|'' # (r @ ''\<newline>'')) = task_id @ [CHR ''|'']"
    using assms(1) by (simp add: starts_with_def)
  then show ?thesis using assms(2,3) prefix_sep by metis
qed

lemma not_result_assign:
  "\<not> starts_with (''RESULT|'' @ task_id @ ''|'') (''ASSIGN_TASK|'' @ x)"
  "\<not> starts_with (''RESULT|'' @ task_id @ ''|'') (''ACK|'' @ x)"
  by (simp_all add: starts_with_def)

lemma decode3_id_no_bar:
  assumes "decode3 tag data = Some (a, b)"
  shows "CHR ''|'' \<notin> set a"
proof -
  let ?s = "py_strip data"
  from assms obtain t where p: "py_split_n CHR ''|'' (Suc (Suc 0)) ?s = [t, a, b]"
    by (auto simp: decode3_def numeral_2_eq_2 split: list.splits if_splits)
  then obtain r where 1: "split_at CHR ''|'' ?s = Some (t, r)"
      and 2: "py_split_n CHR ''|'' (Suc 0) r = [a, b]"
    by (auto split: option.splits)
  from 2 have "split_at CHR ''|'' r = Some (a, b)"
    by (auto split: option.splits)
  then show ?thesis using split_at_some by blast
qed

lemma results_for_append:
  "results_for task_id (st\<lparr>sent := sent st @ [(s, m)]\<rparr>)
     = results_for task_id st
       + (if starts_with (''RESULT|'' @ task_id @ ''|'') m then 1 else 0)"
  by (simp add: results_for_def)

lemma counts_same:
  assumes "sent st' = sent st" and "task_to_client st' = task_to_client st"
  shows "results_for task_id st' = results_for task_id st"
    and "pending task_id st' = pending task_id st"
  using assms by (simp_all add: results_for_def pending_def)

lemma sock_send_other:
  assumes "\<not> starts_with (''RESULT|'' @ task_id @ ''|'') m"
  shows "results_for task_id (snd (sock_send s m st)) = results_for task_id st"
    and "pending task_id (snd (sock_send s m st)) = pending task_id st"
  using assms by (simp_all add: sock_send_def results_for_def pending_def)

lemma assign_task_counts:
  "results_for task_id (snd (assign_task_to_worker t td st)) = results_for task_id st"
  "pending task_id (snd (assign_task_to_worker t td st)) = pending task_id st"
proof -
  let ?m = "''ASSIGN_TASK|'' @ t @ ''|'' @ td @ ''\<newline>''"
  have n: "\<not> starts_with (''RESULT|'' @ task_id @ ''|'') ?m"
    by (simp add: starts_with_def)
  show "results_for task_id (snd (assign_task_to_worker t td st)) = results_for task_id st"
  proof (cases "workers st")
    case Nil
    then show ?thesis by (simp add: assign_task_empty results_for_def)
  next
    case (Cons w ws)
    obtain s wid where w: "w = (s, wid)" by (cases w)
    have "assign_task_to_worker t td st = sock_send s ?m (st\<lparr>workers := ws\<rparr>)"
      using Cons w by (simp add: assign_task_to_worker_def workers_get_def)
    then show ?thesis
      using sock_send_other(1) [OF n, of s "st\<lparr>workers := ws\<rparr>"]
      by (simp add: results_for_def)
  qed
  show "pending task_id (snd (assign_task_to_worker t td st)) = pending task_id st"
    using assign_task_ledger [of t td st] by (simp add: pending_def)
qed

lemma send_result_counts:
  assumes "CHR ''|'' \<notin> set task_id" and "CHR ''|'' \<notin> set t"
  shows "results_for task_id (send_result_to_client t r st)
           + pending task_id (send_result_to_client t r st)
         \<le> results_for task_id st + pending task_id st"
proof (cases "task_to_client st t")
  case None
  then show ?thesis by (simp add: send_result_unknown)
next
  case (Some c)
  let ?m = "''RESULT|'' @ t @ ''|'' @ r @ ''\<newline>''"
  let ?st1 = "st\<lparr>task_to_client := (task_to_client st)(t := None)\<rparr>"
  have e: "send_result_to_client t r st = snd (sock_send c ?m ?st1)"
    using Some by (simp add: send_result_to_client_def)
  have s1: "results_for task_id ?st1 = results_for task_id st"
    by (simp add: results_for_def)
  show ?thesis
  proof (cases "t = task_id")
    case True
    have "pending task_id ?st1 = 0" "pending task_id st = 1"
      using True Some by (simp_all add: pending_def)
    moreover have "pending task_id (snd (sock_send c ?m ?st1)) = pending task_id ?st1"
      by (simp add: sock_send_def pending_def)
    moreover have "results_for task_id (snd (sock_send c ?m ?st1)) \<le> results_for task_id ?st1 + 1"
      by (simp add: sock_send_def results_for_def)
    ultimately show ?thesis using e s1 by simp
  next
    case False
    then have n: "\<not> starts_with (''RESULT|'' @ task_id @ ''|'') ?m"
      using result_for_same_id assms by blast
    have "pending task_id ?st1 = pending task_id st"
      using False by (simp add: pending_def)
    then show ?thesis
      using e s1 sock_send_other [OF n, of c ?st1] by simp
  qed
qed

lemma handle_worker_register_counts:
  "results_for task_id (snd (handle_worker_register s data st)) = results_for task_id st"
  "pending task_id (snd (handle_worker_register s data st)) = pending task_id st"
proof -
  have c: "results_for task_id (sock_close s st) = results_for task_id st"
    "pending task_id (sock_close s st) = pending task_id st"
    by (simp_all add: sock_close_def results_for_def pending_def)
  have "results_for task_id (snd (handle_worker_register s data st)) = results_for task_id st
      \<and> pending task_id (snd (handle_worker_register s data st)) = pending task_id st"
  proof (cases "\<exists>wid. py_split CHR ''|'' (py_strip data) = [''REGISTER'', wid]")
    case False
    then show ?thesis using c by (simp add: handle_worker_register_reject)
  next
    case True
    then obtain wid where p: "py_split CHR ''|'' (py_strip data) = [''REGISTER'', wid]"
      by blast
    let ?m = "''ACK|'' @ wid @ ''\<newline>''"
    have n: "\<not> starts_with (''RESULT|'' @ task_id @ ''|'') ?m"
      by (simp add: starts_with_def)
    note o = sock_send_other [OF n, of s st]
    show ?thesis
    proof (cases "data = []")
      case True
      then show ?thesis using c by (simp add: handle_worker_register_def)
    next
      case False
      show ?thesis
      proof (cases "sock_send s ?m st")
        case (Pair x st1)
        then have 1: "results_for task_id st1 = results_for task_id st"
          "pending task_id st1 = pending task_id st"
          using o by simp_all
        show ?thesis
          using False p Pair 1
          by (cases x)
             (simp_all add: handle_worker_register_def workers_put_def sock_close_def
               results_for_def pending_def)
      qed
    qed
  qed
  then show "results_for task_id (snd (handle_worker_register s data st)) = results_for task_id st"
    "pending task_id (snd (handle_worker_register s data st)) = pending task_id st"
    by simp_all
qed

lemma handle_client_counts:
  "results_for task_id (snd (handle_client c data st))
     + pending task_id (snd (handle_client c data st))
   \<le> results_for task_id st + pending task_id st
       + (if admits task_id (ClientData c data) then 1 else 0)"
proof (cases "decode3 ''TASK'' data")
  case None
  then show ?thesis
    by (simp add: handle_client_def sock_close_def results_for_def pending_def)
next
  case (Some p)
  obtain t td where d: "decode3 ''TASK'' data = Some (t, td)" using Some by (cases p) simp
  let ?st1 = "st\<lparr>task_to_client := (task_to_client st)(t \<mapsto> c)\<rparr>"
  obtain x st2 where a: "assign_task_to_worker t td ?st1 = (x, st2)"
    by (cases "assign_task_to_worker t td ?st1")
  have st2: "results_for task_id st2 = results_for task_id ?st1"
    "pending task_id st2 = pending task_id ?st1"
    using assign_task_counts [of task_id t td ?st1] a by simp_all
  have "snd (handle_client c data st) = st2 \<or> snd (handle_client c data st) = sock_close c st2"
    unfolding handle_client_admit [OF d] using a by (cases x) simp_all
  then have "results_for task_id (snd (handle_client c data st)) = results_for task_id st2"
    "pending task_id (snd (handle_client c data st)) = pending task_id st2"
    by (auto simp: sock_close_def results_for_def pending_def)
  moreover have "results_for task_id ?st1 = results_for task_id st"
    by (simp add: results_for_def)
  moreover have "pending task_id ?st1 \<le> pending task_id st + (if t = task_id then 1 else 0)"
    by (simp add: pending_def split: option.splits)
  moreover have "admits task_id (ClientData c data) = (t = task_id)" using d by simp
  ultimately show ?thesis using st2 by simp
qed

lemma handle_worker_result_counts:
  assumes "CHR ''|'' \<notin> set task_id"
  shows "results_for task_id (snd (handle_worker_result s wid data st))
           + pending task_id (snd (handle_worker_result s wid data st))
         \<le> results_for task_id st + pending task_id st"
proof (cases "decode3 ''TASK_RESULT'' data")
  case None
  then show ?thesis
    by (simp add: handle_worker_result_def sock_close_def results_for_def pending_def)
next
  case (Some p)
  obtain t r where d: "decode3 ''TASK_RESULT'' data = Some (t, r)" using Some by (cases p) simp
  then have "data \<noteq> []" by (rule decode3_nonempty)
  then have "snd (handle_worker_result s wid data st)
      = workers_put (s, wid) (send_result_to_client t r st)"
    using d by (simp add: handle_worker_result_def)
  moreover have "CHR ''|'' \<notin> set t" using d by (rule decode3_id_no_bar)
  ultimately show ?thesis
    using send_result_counts [OF assms, of t r st]
    by (simp add: workers_put_def results_for_def pending_def)
qed

lemma timer_fire_counts:
  "results_for task_id (timer_fire i st) = results_for task_id st"
  "pending task_id (timer_fire i st) = pending task_id st"
proof -
  have "results_for task_id (timer_fire i st) = results_for task_id st
      \<and> pending task_id (timer_fire i st) = pending task_id st"
  proof (cases "i < length (timers st)")
    case True
    obtain n t td where t: "timers st ! i = (n, t, td)" by (cases "timers st ! i")
    let ?st1 = "st\<lparr>timers := take i (timers st) @ drop (Suc i) (timers st)\<rparr>"
    have "timer_fire i st = snd (assign_task_to_worker t td ?st1)"
      using True t by (simp add: timer_fire_def)
    then have "results_for task_id (timer_fire i st) = results_for task_id ?st1"
      "pending task_id (timer_fire i st) = pending task_id ?st1"
      using assign_task_counts by simp_all
    then show ?thesis by (simp add: results_for_def pending_def)
  next
    case False
    then show ?thesis by (simp add: timer_fire_def)
  qed
  then show "results_for task_id (timer_fire i st) = results_for task_id st"
    "pending task_id (timer_fire i st) = pending task_id st"
    by simp_all
qed

lemma step_counts:
  assumes "CHR ''|'' \<notin> set task_id"
  shows "results_for task_id (step e st) + pending task_id (step e st)
         \<le> results_for task_id st + pending task_id st + (if admits task_id e then 1 else 0)"
proof (cases e)
  case (ClientData c data)
  then show ?thesis using handle_client_counts [of task_id c data st] by simp
next
  case (WorkerHello s data)
  then show ?thesis using handle_worker_register_counts [of task_id s data st] by simp
next
  case (WorkerData s wid data)
  then show ?thesis using handle_worker_result_counts [OF assms, of s wid data st] by simp
next
  case (ConnectionLost s)
  then show ?thesis
    by (simp add: connection_lost_def sock_close_def results_for_def pending_def)
next
  case (PeerGone s)
  then show ?thesis by (simp add: results_for_def pending_def)
next
  case (TimerFires i)
  then show ?thesis using timer_fire_counts [of task_id i st] by simp
qed

lemma run_counts:
  assumes "CHR ''|'' \<notin> set task_id"
  shows "results_for task_id (run es st) + pending task_id (run es st)
         \<le> results_for task_id st + pending task_id st + length (filter (admits task_id) es)"
proof (induction es arbitrary: st)
  case Nil
  then show ?case by simp
next
  case (Cons e es)
  have "results_for task_id (run es (step e st)) + pending task_id (run es (step e st))
      \<le> results_for task_id (step e st) + pending task_id (step e st)
        + length (filter (admits task_id) es)"
    by (rule Cons.IH)
  moreover have "length (filter (admits task_id) (e # es))
      = (if admits task_id e then 1 else 0) + length (filter (admits task_id) es)"
    by simp
  ultimately show ?case using step_counts [OF assms, of e st] by (simp del: filter.simps)
qed

subsection \<open>Routing of results\<close>

text \<open>
  Claim C6, as the code has it. \<open>_send_result_to_client\<close> removes the entry of the task
  id, leaves every other entry as it was, and sends the \<open>RESULT\<close> to the client the
  entry named; a second result for the same id then changes nothing, so nothing more is
  sent for it. A result for an id that the ledger does not hold leaves the balancer as
  it was, and the worker's session goes on: the worker is put back into the pool. Over
  any run, the \<open>RESULT\<close> messages sent for an id, plus its entry if it is pending, are at
  most those of the start plus the admissions of that id during the run: at most one
  \<open>RESULT\<close> for each admission of the id.
\<close>

theorem result_routed_once:
  "task_to_client (send_result_to_client task_id r st) task_id = None
   \<and> task_to_client (send_result_to_client task_id r st) = (task_to_client st)(task_id := None)
   \<and> (task_to_client st task_id = Some c \<and> healthy st c \<longrightarrow>
        sent (send_result_to_client task_id r st)
          = sent st @ [(c, ''RESULT|'' @ task_id @ ''|'' @ r @ ''\<newline>'')])
   \<and> send_result_to_client task_id r' (send_result_to_client task_id r st)
        = send_result_to_client task_id r st
   \<and> (task_to_client st task_id = None \<longrightarrow> send_result_to_client task_id r st = st)
   \<and> (decode3 ''TASK_RESULT'' data = Some (task_id, r) \<and> task_to_client st task_id = None \<longrightarrow>
        handle_worker_result ws wid data st = (True, workers_put (ws, wid) st))
   \<and> (CHR ''|'' \<notin> set task_id \<longrightarrow>
        results_for task_id (run es st) + pending task_id (run es st)
          \<le> results_for task_id st + pending task_id st + length (filter (admits task_id) es))"
proof (intro conjI impI)
  show "task_to_client (send_result_to_client task_id r st) task_id = None"
    by (rule send_result_removes)
  show "task_to_client (send_result_to_client task_id r st) = (task_to_client st)(task_id := None)"
    by (simp add: send_result_to_client_def sock_send_def Let_def split: option.splits)
  show "send_result_to_client task_id r' (send_result_to_client task_id r st)
        = send_result_to_client task_id r st"
    using send_result_removes by (rule send_result_unknown)
  show "send_result_to_client task_id r st = st" if "task_to_client st task_id = None"
    using that by (rule send_result_unknown)
  show "sent (send_result_to_client task_id r st)
          = sent st @ [(c, ''RESULT|'' @ task_id @ ''|'' @ r @ ''\<newline>'')]"
    if "task_to_client st task_id = Some c \<and> healthy st c"
    using that by (simp add: send_result_to_client_def sock_send_def healthy_def)
  show "handle_worker_result ws wid data st = (True, workers_put (ws, wid) st)"
    if h: "decode3 ''TASK_RESULT'' data = Some (task_id, r) \<and> task_to_client st task_id = None"
  proof -
    have "data \<noteq> []" using h decode3_nonempty by blast
    then show ?thesis using h by (simp add: handle_worker_result_def send_result_unknown)
  qed
  show "results_for task_id (run es st) + pending task_id (run es st)
          \<le> results_for task_id st + pending task_id st + length (filter (admits task_id) es)"
    if "CHR ''|'' \<notin> set task_id"
    using that by (rule run_counts)
qed

text \<open>
  The theorem on a pending task, on an unknown id, and on a run in which the worker
  repeats its result.
\<close>

theorem result_routed_once_witness:
  "sent (send_result_to_client ''t1'' ''15'' dup_state) = [(7, ''RESULT|t1|15\<newline>'')]
   \<and> handle_worker_result 1 ''w1'' ''TASK_RESULT|t9|15\<newline>'' dup_state
       = (True, workers_put (1, ''w1'') dup_state)
   \<and> results_for ''t1'' (run replayed_result scenario_registered) \<le> 1"
proof -
  have a: "task_to_client dup_state ''t1'' = Some 7 \<and> healthy dup_state 7"
    by (simp add: dup_state_def lb_init_def healthy_def)
  have s: "sent dup_state = []" by (simp add: dup_state_def lb_init_def)
  have d: "decode3 ''TASK_RESULT'' ''TASK_RESULT|t9|15\<newline>'' = Some (''t9'', ''15'')"
    by code_simp
  have n: "task_to_client dup_state ''t9'' = None"
    by (simp add: dup_state_def lb_init_def)
  note r1 = result_routed_once [of "''t1''" "''15''" dup_state 7 "[]" "[]" 0 "[]" "[]"]
  note r2 = result_routed_once [of "''t9''" "''15''" dup_state 0 "[]"
      "''TASK_RESULT|t9|15\<newline>''" 1 "''w1''" "[]"]
  note r3 = result_routed_once [of "''t1''" "[]" scenario_registered 0 "[]" "[]" 0 "[]"
      replayed_result]
  have 1: "sent (send_result_to_client ''t1'' ''15'' dup_state) = [(7, ''RESULT|t1|15\<newline>'')]"
    using r1 a s by simp
  have 2: "handle_worker_result 1 ''w1'' ''TASK_RESULT|t9|15\<newline>'' dup_state
       = (True, workers_put (1, ''w1'') dup_state)"
    using r2 d n by blast
  have b: "CHR ''|'' \<notin> set ''t1''" by simp
  have f: "length (filter (admits ''t1'') replayed_result) = 1"
    unfolding replayed_result_def by code_simp
  have z: "results_for ''t1'' scenario_registered = 0" "pending ''t1'' scenario_registered = 0"
    unfolding scenario_registered_eq
    by (simp_all add: results_for_def pending_def starts_with_def lb_init_def)
  have "results_for ''t1'' (run replayed_result scenario_registered)
          + pending ''t1'' (run replayed_result scenario_registered)
        \<le> results_for ''t1'' scenario_registered + pending ''t1'' scenario_registered
          + length (filter (admits ''t1'') replayed_result)"
    using r3 b by blast
  then have 3: "results_for ''t1'' (run replayed_result scenario_registered) \<le> 1"
    using f z by simp
  show ?thesis using 1 2 3 by blast
qed

subsection \<open>An id admitted twice\<close>

text \<open>
  Claim C6 as stated fails: an id that is admitted again after its result has been
  routed gets a second \<open>RESULT\<close>.
\<close>

theorem two_results_counterexample:
  "sent (run readmitted scenario_registered)
     = [(1, ''ACK|w1\<newline>''),
        (1, ''ASSIGN_TASK|t1|1\<newline>''), (2, ''RESULT|t1|1\<newline>''),
        (1, ''ASSIGN_TASK|t1|2\<newline>''), (2, ''RESULT|t1|2\<newline>'')]
   \<and> results_for ''t1'' (run readmitted scenario_registered) = 2"
  unfolding readmitted_def by code_simp

end
